theory Spec2Isabelle
  imports Complex_Main "HOL-Library.Log_Nat"
begin

section \<open>mqttcmdscript: the cmdscript parser and the step executor\<close>

text \<open>
  A shallow embedding of \<^verbatim>\<open>src/mqttcmdscript.py\<close> (with the helpers of
  \<^verbatim>\<open>filesrw.py\<close> and the tables of \<^verbatim>\<open>constants.py\<close> it uses).

  Conventions of the embedding.
  \<^item> A Python \<^verbatim>\<open>str\<close> is a \<^typ>\<open>string\<close>. The model covers ASCII text: upper-casing
    maps \<^verbatim>\<open>a-z\<close> to \<^verbatim>\<open>A-Z\<close> and leaves every other character alone, and the
    white space of \<^verbatim>\<open>str.split()\<close> and of \<^verbatim>\<open>int()\<close> is the ASCII white space
    Python uses for each of them.
  \<^item> Python values held in dynamically typed places (a command's arguments, the
    configuration fields they are copied to) are values of \<open>arg\<close>: a string or an
    integer.
  \<^item> An uncaught exception is \<open>Inl\<close> of the exception's kind; the state reached when
    it was raised is not kept.
  \<^item> The module-level variables (the global \<^verbatim>\<open>config\<close> object and the flags beside
    it) are one record, passed in and returned. The lines written through
    \<^verbatim>\<open>logging\<close> and the calls made on the MQTT client are appended to its
    \<open>events\<close> field, in order.
  \<^item> \<^verbatim>\<open>time()\<close> reads a clock \<open>nat \<Rightarrow> rat\<close>: the k-th call of a run returns the
    clock's value at k. A float is held as the rational number it denotes. The division
    of two integers rounds to the nearest double, as Python's does; the difference of
    two clock readings is taken exactly (it is exact in Python whenever one reading is
    at most twice the other, and when one of them is 0).
\<close>

subsection \<open>Python strings\<close>

definition LF :: char where
  "LF = CHR 0x0A"

definition CR :: char where
  "CR = CHR 0x0D"

definition DQUOTE :: char where
  "DQUOTE = CHR 0x22"

definition SPACE :: char where
  "SPACE = CHR 0x20"

text \<open>White space of \<^verbatim>\<open>str.split()\<close> and \<^verbatim>\<open>str.isspace()\<close> (ASCII part).\<close>

definition py_isspace :: "char \<Rightarrow> bool" where
  "py_isspace c = (of_char c \<in> set [9, 10, 11, 12, 13, 28, 29, 30, 31, 32 :: nat])"

text \<open>White space skipped by \<^verbatim>\<open>int(s, 10)\<close> around the number (ASCII part).\<close>

definition int_isspace :: "char \<Rightarrow> bool" where
  "int_isspace c = (of_char c \<in> set [9, 10, 11, 12, 13, 32 :: nat])"

definition is_lower :: "char \<Rightarrow> bool" where
  "is_lower c = (97 \<le> (of_char c :: nat) \<and> (of_char c :: nat) \<le> 122)"

definition is_digit :: "char \<Rightarrow> bool" where
  "is_digit c = (48 \<le> (of_char c :: nat) \<and> (of_char c :: nat) \<le> 57)"

text \<open>An ASCII lower-case letter and its capital differ in bit 5 only.\<close>

definition upper_char :: "char \<Rightarrow> char" where
  "upper_char c =
     (if is_lower c
      then (case c of Char b0 b1 b2 b3 b4 b5 b6 b7 \<Rightarrow> Char b0 b1 b2 b3 b4 False b6 b7)
      else c)"

text \<open>\<^verbatim>\<open>s.upper()\<close>\<close>

definition upper :: "string \<Rightarrow> string" where
  "upper s = map upper_char s"

text \<open>\<^verbatim>\<open>s.replace("\r\n", "\n")\<close>: left to right, without overlaps.\<close>

fun replace_crlf :: "string \<Rightarrow> string" where
  "replace_crlf (a # b # cs) =
     (if a = CR \<and> b = LF then LF # replace_crlf cs else a # replace_crlf (b # cs))"
| "replace_crlf cs = cs"

text \<open>\<^verbatim>\<open>s.split(sep)\<close> for a separator of one character: the result is never
  empty, and two separators in a row give an empty string between them.\<close>

fun split_on :: "char \<Rightarrow> string \<Rightarrow> string list" where
  "split_on sep [] = [[]]"
| "split_on sep (c # cs) =
     (if c = sep then [] # split_on sep cs
      else (case split_on sep cs of [] \<Rightarrow> [[c]] | w # ws \<Rightarrow> (c # w) # ws))"

text \<open>\<^verbatim>\<open>s.split()\<close>: the maximal runs of characters that are not white space.\<close>

fun py_split :: "string \<Rightarrow> string list" where
  "py_split [] = []"
| "py_split (c # cs) =
     (if py_isspace c then py_split cs
      else (case cs of
              [] \<Rightarrow> [[c]]
            | d # _ \<Rightarrow>
                if py_isspace d then [c] # py_split cs
                else (case py_split cs of [] \<Rightarrow> [[c]] | w # ws \<Rightarrow> (c # w) # ws)))"

text \<open>\<^verbatim>\<open>" ".join(xs)\<close> on strings.\<close>

fun join_space :: "string list \<Rightarrow> string" where
  "join_space [] = []"
| "join_space [x] = x"
| "join_space (x # y # ys) = x @ SPACE # join_space (y # ys)"

text \<open>\<^verbatim>\<open>s[1:-1]\<close>\<close>

definition slice_1_m1 :: "string \<Rightarrow> string" where
  "slice_1_m1 s = butlast (tl s)"

subsection \<open>Python's \<^verbatim>\<open>int(s, 10)\<close>\<close>

text \<open>
  The accepted strings: white space, an optional sign, then decimal digits in which
  single underscores may stand between two digits, then white space. More digits than
  \<^verbatim>\<open>sys.get_int_max_str_digits()\<close> (4300 unless reconfigured) are refused with the
  same \<^verbatim>\<open>ValueError\<close>. \<open>None\<close> stands for that \<^verbatim>\<open>ValueError\<close>.
\<close>

fun int_body :: "string \<Rightarrow> bool" where
  "int_body [] = False"
| "int_body [c] = is_digit c"
| "int_body (c # d # cs) =
     (is_digit c \<and> (if d = CHR ''_'' then int_body cs else int_body (d # cs)))"

definition digit_val :: "char \<Rightarrow> int" where
  "digit_val c = int (of_char c - 48)"

definition digits_val :: "string \<Rightarrow> int" where
  "digits_val ds = foldl (\<lambda>acc c. acc * 10 + digit_val c) 0 ds"

definition int_max_str_digits :: nat where
  "int_max_str_digits = 4300"

definition py_strip :: "string \<Rightarrow> string" where
  "py_strip s = rev (dropWhile int_isspace (rev (dropWhile int_isspace s)))"

definition unsigned_int :: "string \<Rightarrow> int option" where
  "unsigned_int body =
     (let ds = filter is_digit body in
      if int_body body \<and> length ds \<le> int_max_str_digits then Some (digits_val ds) else None)"

definition py_int :: "string \<Rightarrow> int option" where
  "py_int s =
     (case py_strip s of
        [] \<Rightarrow> None
      | c # cs \<Rightarrow>
          if c = CHR ''-'' then map_option uminus (unsigned_int cs)
          else if c = CHR ''+'' then unsigned_int cs
          else unsigned_int (c # cs))"

subsection \<open>Data\<close>

datatype error =
  IndexError | TypeError | ValueError | AttributeError | SystemExit | ZeroDivisionError | OverflowError

text \<open>A value a command argument can hold: the token as read, or the integer the
  Step Compiler replaces it with.\<close>

datatype arg = S string | I int

text \<open>\<^verbatim>\<open>class Command\<close>\<close>

record Command =
  cmd :: string
  args :: "arg list"

text \<open>\<^verbatim>\<open>class ConfigSubscription\<close> (fields \<^verbatim>\<open>qos\<close>, \<^verbatim>\<open>topic\<close>, \<^verbatim>\<open>logfile\<close>).\<close>

record ConfigSubscription =
  sub_qos :: int
  sub_topic :: arg
  logfile :: arg

text \<open>\<^verbatim>\<open>class ConfigPublishEach\<close>. \<open>time_last_pub\<close> is \<open>None\<close> for Python's
  \<^verbatim>\<open>None\<close>; the class sets it to the number 0.\<close>

record ConfigPublishEach =
  each :: int
  qos :: int
  topic :: arg
  msg :: string
  time_last_pub :: "rat option"

text \<open>What the program writes to its log and asks of the MQTT client.\<close>

datatype event =
    Warn_unexpected_cmd string
  | Error_missing_arg string
  | Error_invalid_arg string "arg list"
  | Error_file_not_found string
  | Error_traceback
  | Error_cannot_read string
  | Info string
  | Print_help
  | Mqtt_connect arg int int
  | Mqtt_publish arg arg arg
  | Mqtt_disconnect
  | Mqtt_loop_stop

text \<open>\<^verbatim>\<open>class Configuration\<close>\<close>

record Configuration =
  invalid :: bool
  commands :: "Command list"
  mqtt_host :: arg
  mqtt_port :: int
  clean_session :: bool
  keepalive_s :: int
  client_id :: arg
  username :: arg
  password :: arg
  use_tls :: bool
  tls_cert :: arg
  tls_key :: arg
  subscriptions :: "ConfigSubscription list"
  pub_each :: "ConfigPublishEach list"
  steps_to_execute :: "Command list"

text \<open>The module's global state: the \<^verbatim>\<open>config\<close> object (the fields above), the
  other module-level variables, the output so far and the number of \<^verbatim>\<open>time()\<close>
  calls made.\<close>

record state = Configuration +
  app_exit :: bool
  time_mqtt_connected :: "rat option"
  t_wait_start :: "rat option"
  events :: "event list"
  time_calls :: nat

definition initial_state :: state where
  "initial_state =
     \<lparr>invalid = False, commands = [], mqtt_host = S [], mqtt_port = 1883,
      clean_session = True, keepalive_s = 60, client_id = S [], username = S [],
      password = S [], use_tls = False, tls_cert = S [], tls_key = S [],
      subscriptions = [], pub_each = [], steps_to_execute = [],
      app_exit = False, time_mqtt_connected = None, t_wait_start = None,
      events = [], time_calls = 0\<rparr>"

text \<open>\<^verbatim>\<open>class RC\<close>\<close>

definition RC_OK :: int where
  "RC_OK = 0"

definition RC_FAIL :: int where
  "RC_FAIL = - 1"

definition RC_NO_ARGS :: int where
  "RC_NO_ARGS = - 2"

text \<open>\<^verbatim>\<open>CONST.CMDSCRIPT_COMMANDS\<close> and \<^verbatim>\<open>CONST.CMDSCRIPT_ARGS_YES_NO\<close>\<close>

definition CMDSCRIPT_COMMANDS :: "string list" where
  "CMDSCRIPT_COMMANDS =
     [''CFG_CLIENT_ID'', ''CFG_CLEAN_SESSION'', ''CFG_KEEPALIVE'', ''CFG_USER'',
      ''CFG_USE_TLS'', ''CFG_TLS_CERT'', ''CFG_PUB_EACH'', ''CONNECT'', ''DISCONNECT'',
      ''DELAY'', ''DELAY_MS'', ''DELAY_H'', ''PUB'', ''SUB'']"

definition CMDSCRIPT_ARGS_YES_NO :: "arg list" where
  "CMDSCRIPT_ARGS_YES_NO = [S ''YES'', S ''NO'']"

subsection \<open>Auxiliary functions\<close>

definition logger :: "event \<Rightarrow> state \<Rightarrow> state" where
  "logger e w = w\<lparr>events := events w @ [e]\<rparr>"

text \<open>\<^verbatim>\<open>is_int(s)\<close>: only \<^verbatim>\<open>ValueError\<close> is caught, and \<^verbatim>\<open>int(x, 10)\<close> raises
  \<^verbatim>\<open>TypeError\<close> on a value that is not a string.\<close>

fun is_int :: "arg \<Rightarrow> error + bool" where
  "is_int (S s) = Inr (py_int s \<noteq> None)"
| "is_int (I n) = Inl TypeError"

text \<open>\<^verbatim>\<open>int(x)\<close>\<close>

fun int_of_arg :: "arg \<Rightarrow> error + int" where
  "int_of_arg (S s) = (case py_int s of None \<Rightarrow> Inl ValueError | Some n \<Rightarrow> Inr n)"
| "int_of_arg (I n) = Inr n"

text \<open>\<^verbatim>\<open>x.upper()\<close>\<close>

fun upper_of_arg :: "arg \<Rightarrow> error + string" where
  "upper_of_arg (S s) = Inr (upper s)"
| "upper_of_arg (I n) = Inl AttributeError"

text \<open>\<^verbatim>\<open>" ".join(xs)\<close> on a list of values: every item must be a string.\<close>

fun strings_of :: "arg list \<Rightarrow> error + string list" where
  "strings_of [] = Inr []"
| "strings_of (S s # xs) = (case strings_of xs of Inl e \<Rightarrow> Inl e | Inr ss \<Rightarrow> Inr (s # ss))"
| "strings_of (I n # xs) = Inl TypeError"

definition join_args :: "arg list \<Rightarrow> error + string" where
  "join_args xs = (case strings_of xs of Inl e \<Rightarrow> Inl e | Inr ss \<Rightarrow> Inr (join_space ss))"

text \<open>The test \<^verbatim>\<open>(len(msg) < 3) or (msg[0] != "\"") or (msg[-1] != "\"")\<close>, with
  Python's evaluation from left to right.\<close>

definition not_quoted :: "string \<Rightarrow> bool" where
  "not_quoted m =
     (if length m < 3 then True else if hd m \<noteq> DQUOTE then True else last m \<noteq> DQUOTE)"

subsection \<open>The tokenizer (first part of \<^verbatim>\<open>cmdscript_parse\<close>)\<close>

text \<open>
  The loop \<^verbatim>\<open>for i in range(len(cmdscript)-1)\<close> that collects \<^verbatim>\<open>lines_to_rm_index\<close>.
  It is given the lines it visits (all but the last one) and the index of the first of
  them. \<^verbatim>\<open>line.split()[0]\<close> raises \<^verbatim>\<open>IndexError\<close> on a line of white space only.
\<close>

fun lines_to_rm_index :: "nat \<Rightarrow> string list \<Rightarrow> state \<Rightarrow> error + (nat list \<times> state)" where
  "lines_to_rm_index i [] w = Inr ([], w)"
| "lines_to_rm_index i (line # rest) w =
     (if length line = 0 then
        (case lines_to_rm_index (Suc i) rest w of
           Inl e \<Rightarrow> Inl e | Inr (rm, w') \<Rightarrow> Inr (i # rm, w'))
      else if hd line = CHR ''#'' then
        (case lines_to_rm_index (Suc i) rest w of
           Inl e \<Rightarrow> Inl e | Inr (rm, w') \<Rightarrow> Inr (i # rm, w'))
      else
        (case py_split line of
           [] \<Rightarrow> Inl IndexError
         | tok # _ \<Rightarrow>
             if tok \<notin> set CMDSCRIPT_COMMANDS then
               (case lines_to_rm_index (Suc i) rest (logger (Warn_unexpected_cmd line) w) of
                  Inl e \<Rightarrow> Inl e | Inr (rm, w') \<Rightarrow> Inr (i # rm, w'))
             else lines_to_rm_index (Suc i) rest w))"

text \<open>\<^verbatim>\<open>del xs[n]\<close>\<close>

definition del_at :: "nat \<Rightarrow> 'a list \<Rightarrow> 'a list" where
  "del_at n xs = take n xs @ drop (Suc n) xs"

text \<open>The loop \<^verbatim>\<open>for i in lines_to_rm_index: del cmdscript[i-removed]\<close>.\<close>

fun remove_lines :: "nat list \<Rightarrow> nat \<Rightarrow> string list \<Rightarrow> string list" where
  "remove_lines [] removed ls = ls"
| "remove_lines (i # rm) removed ls = remove_lines rm (Suc removed) (del_at (i - removed) ls)"

text \<open>The body of \<^verbatim>\<open>for cmd_line in cmdscript\<close>: the line is cut at every single
  space, the first piece is upper-cased.\<close>

definition command_of_line :: "string \<Rightarrow> Command" where
  "command_of_line cmd_line =
     (let words = split_on SPACE cmd_line
      in \<lparr>cmd = upper (hd words), args = map S (tl words)\<rparr>)"

subsection \<open>The Configuration Builder (second part of \<^verbatim>\<open>cmdscript_parse\<close>)\<close>

definition missing_arg :: "Command \<Rightarrow> state \<Rightarrow> state" where
  "missing_arg cmd_arg w = (logger (Error_missing_arg (cmd cmd_arg)) w)\<lparr>invalid := True\<rparr>"

definition invalid_arg :: "Command \<Rightarrow> state \<Rightarrow> state" where
  "invalid_arg cmd_arg w =
     (logger (Error_invalid_arg (cmd cmd_arg) (args cmd_arg)) w)\<lparr>invalid := True\<rparr>"

definition cfg_client_id :: "Command \<Rightarrow> state \<Rightarrow> error + state" where
  "cfg_client_id cmd_arg w =
     (if length (args cmd_arg) = 0 then Inr (missing_arg cmd_arg w)
      else Inr (w\<lparr>client_id := args cmd_arg ! 0\<rparr>))"

definition cfg_clean_session :: "Command \<Rightarrow> state \<Rightarrow> error + state" where
  "cfg_clean_session cmd_arg w =
     (if length (args cmd_arg) = 0 then Inr (missing_arg cmd_arg w)
      else if args cmd_arg ! 0 \<notin> set CMDSCRIPT_ARGS_YES_NO then Inr (invalid_arg cmd_arg w)
      else (case upper_of_arg (args cmd_arg ! 0) of
              Inl e \<Rightarrow> Inl e
            | Inr u \<Rightarrow>
                if u = ''YES'' then Inr (w\<lparr>clean_session := True\<rparr>)
                else if u = ''NO'' then Inr (w\<lparr>clean_session := False\<rparr>)
                else Inr w))"

definition cfg_keepalive :: "Command \<Rightarrow> state \<Rightarrow> error + state" where
  "cfg_keepalive cmd_arg w =
     (if length (args cmd_arg) = 0 then Inr (missing_arg cmd_arg w)
      else (case is_int (args cmd_arg ! 0) of
              Inl e \<Rightarrow> Inl e
            | Inr b \<Rightarrow>
                if b = False then Inr (invalid_arg cmd_arg w)
                else (case int_of_arg (args cmd_arg ! 0) of
                        Inl e \<Rightarrow> Inl e
                      | Inr n \<Rightarrow> Inr (w\<lparr>keepalive_s := n\<rparr>))))"

definition cfg_user :: "Command \<Rightarrow> state \<Rightarrow> error + state" where
  "cfg_user cmd_arg w =
     (if length (args cmd_arg) < 2 then Inr (missing_arg cmd_arg w)
      else Inr (w\<lparr>username := args cmd_arg ! 0, password := args cmd_arg ! 1\<rparr>))"

definition cfg_tls_cert :: "Command \<Rightarrow> state \<Rightarrow> error + state" where
  "cfg_tls_cert cmd_arg w =
     (if length (args cmd_arg) < 2 then Inr (missing_arg cmd_arg w)
      else Inr (w\<lparr>tls_cert := args cmd_arg ! 0, tls_key := args cmd_arg ! 1\<rparr>))"

definition cfg_use_tls :: "Command \<Rightarrow> state \<Rightarrow> error + state" where
  "cfg_use_tls cmd_arg w =
     (if length (args cmd_arg) = 0 then Inr (missing_arg cmd_arg w)
      else if args cmd_arg ! 0 \<notin> set CMDSCRIPT_ARGS_YES_NO then Inr (invalid_arg cmd_arg w)
      else (case upper_of_arg (args cmd_arg ! 0) of
              Inl e \<Rightarrow> Inl e
            | Inr u \<Rightarrow>
                if u = ''YES'' then Inr (w\<lparr>use_tls := True\<rparr>)
                else if u = ''NO'' then Inr (w\<lparr>use_tls := False\<rparr>)
                else Inr w))"

text \<open>In \<^verbatim>\<open>is_int(args[0]) == False or is_int(args[1]) == False\<close> the second test
  runs only when the first argument is an integer.\<close>

definition cfg_pub_each :: "Command \<Rightarrow> state \<Rightarrow> error + state" where
  "cfg_pub_each cmd_arg w =
     (if length (args cmd_arg) < 4 then Inr (missing_arg cmd_arg w)
      else (case is_int (args cmd_arg ! 0) of
        Inl e \<Rightarrow> Inl e
      | Inr b0 \<Rightarrow>
          if b0 = False then Inr (invalid_arg cmd_arg w)
          else (case is_int (args cmd_arg ! 1) of
            Inl e \<Rightarrow> Inl e
          | Inr b1 \<Rightarrow>
              if b1 = False then Inr (invalid_arg cmd_arg w)
              else (case join_args (drop 3 (args cmd_arg)) of
                Inl e \<Rightarrow> Inl e
              | Inr m \<Rightarrow>
                  if not_quoted m then Inr (invalid_arg cmd_arg w)
                  else (case int_of_arg (args cmd_arg ! 0) of
                    Inl e \<Rightarrow> Inl e
                  | Inr n \<Rightarrow>
                      (case int_of_arg (args cmd_arg ! 1) of
                        Inl e \<Rightarrow> Inl e
                      | Inr q \<Rightarrow>
                          Inr (w\<lparr>pub_each := pub_each w @
                                 [\<lparr>each = n, qos = q, topic = args cmd_arg ! 2,
                                   msg = slice_1_m1 m, time_last_pub = Some 0\<rparr>]\<rparr>)))))))"

definition cfg_sub :: "Command \<Rightarrow> state \<Rightarrow> error + state" where
  "cfg_sub cmd_arg w =
     (if length (args cmd_arg) < 3 then Inr (missing_arg cmd_arg w)
      else (case is_int (args cmd_arg ! 0) of
              Inl e \<Rightarrow> Inl e
            | Inr b \<Rightarrow>
                if b = False then Inr (invalid_arg cmd_arg w)
                else (case int_of_arg (args cmd_arg ! 0) of
                        Inl e \<Rightarrow> Inl e
                      | Inr q \<Rightarrow>
                          Inr (w\<lparr>subscriptions := subscriptions w @
                                 [\<lparr>sub_qos = q, sub_topic = args cmd_arg ! 1,
                                   logfile = args cmd_arg ! 2\<rparr>]\<rparr>))))"

definition cfg_connect :: "Command \<Rightarrow> state \<Rightarrow> error + state" where
  "cfg_connect cmd_arg w =
     (if length (args cmd_arg) < 2 then Inr (missing_arg cmd_arg w)
      else (case is_int (args cmd_arg ! 1) of
              Inl e \<Rightarrow> Inl e
            | Inr b \<Rightarrow>
                if b = False then Inr (invalid_arg cmd_arg w)
                else (case int_of_arg (args cmd_arg ! 1) of
                        Inl e \<Rightarrow> Inl e
                      | Inr p \<Rightarrow> Inr (w\<lparr>mqtt_host := args cmd_arg ! 0, mqtt_port := p\<rparr>))))"

text \<open>The body of the first \<^verbatim>\<open>for cmd_arg in config.commands\<close>: the
  \<^verbatim>\<open>if/elif\<close> chain over the keyword. Every \<^verbatim>\<open>continue\<close> ends the body.\<close>

definition config_cmd :: "Command \<Rightarrow> state \<Rightarrow> error + state" where
  "config_cmd cmd_arg w =
     (if cmd cmd_arg = ''CFG_CLIENT_ID'' then cfg_client_id cmd_arg w
      else if cmd cmd_arg = ''CFG_CLEAN_SESSION'' then cfg_clean_session cmd_arg w
      else if cmd cmd_arg = ''CFG_KEEPALIVE'' then cfg_keepalive cmd_arg w
      else if cmd cmd_arg = ''CFG_USER'' then cfg_user cmd_arg w
      else if cmd cmd_arg = ''CFG_TLS_CERT'' then cfg_tls_cert cmd_arg w
      else if cmd cmd_arg = ''CFG_USE_TLS'' then cfg_use_tls cmd_arg w
      else if cmd cmd_arg = ''CFG_PUB_EACH'' then cfg_pub_each cmd_arg w
      else if cmd cmd_arg = ''SUB'' then cfg_sub cmd_arg w
      else if cmd cmd_arg = ''CONNECT'' then cfg_connect cmd_arg w
      else Inr w)"

text \<open>The first \<^verbatim>\<open>for cmd_arg in config.commands\<close> loop.\<close>

fun config_pass :: "Command list \<Rightarrow> state \<Rightarrow> error + state" where
  "config_pass [] w = Inr w"
| "config_pass (cmd_arg # rest) w =
     (case config_cmd cmd_arg w of Inl e \<Rightarrow> Inl e | Inr w' \<Rightarrow> config_pass rest w')"

subsection \<open>The Step Compiler (third part of \<^verbatim>\<open>cmdscript_parse\<close>)\<close>

text \<open>How the body of the loop ends: it goes on with the next command, or it leaves the
  loop through \<^verbatim>\<open>break\<close>.\<close>

datatype flow = Next | Break

text \<open>
  The body of the second \<^verbatim>\<open>for cmd_arg in config.commands\<close>. The command is an
  object shared with \<^verbatim>\<open>config.commands\<close>, and the body rewrites its arguments; the
  result holds the command as the body leaves it.
\<close>

definition step_pub :: "Command \<Rightarrow> state \<Rightarrow> error + (flow \<times> Command \<times> state)" where
  "step_pub cmd_arg w =
     (if length (args cmd_arg) < 3 then Inr (Break, cmd_arg, missing_arg cmd_arg w)
      else (case is_int (args cmd_arg ! 0) of
        Inl e \<Rightarrow> Inl e
      | Inr b \<Rightarrow>
          if b = False then Inr (Break, cmd_arg, invalid_arg cmd_arg w)
          else (case join_args (drop 2 (args cmd_arg)) of
            Inl e \<Rightarrow> Inl e
          | Inr m \<Rightarrow>
              if not_quoted m then Inr (Break, cmd_arg, invalid_arg cmd_arg w)
              else (case int_of_arg (args cmd_arg ! 0) of
                Inl e \<Rightarrow> Inl e
              | Inr n \<Rightarrow>
                  (let c' = cmd_arg\<lparr>args := (take 2 (args cmd_arg))[0 := I n] @ [S (slice_1_m1 m)]\<rparr>
                   in Inr (Next, c', w\<lparr>steps_to_execute := steps_to_execute w @ [c']\<rparr>))))))"

definition step_delay :: "Command \<Rightarrow> state \<Rightarrow> error + (flow \<times> Command \<times> state)" where
  "step_delay cmd_arg w =
     (if length (args cmd_arg) = 0 then Inr (Break, cmd_arg, missing_arg cmd_arg w)
      else (case is_int (args cmd_arg ! 0) of
        Inl e \<Rightarrow> Inl e
      | Inr b \<Rightarrow>
          if b = False then Inr (Break, cmd_arg, invalid_arg cmd_arg w)
          else (case int_of_arg (args cmd_arg ! 0) of
            Inl e \<Rightarrow> Inl e
          | Inr n \<Rightarrow>
              (let c' = cmd_arg\<lparr>args := (args cmd_arg)[0 := I n]\<rparr>
               in Inr (Next, c', w\<lparr>steps_to_execute := steps_to_execute w @ [c']\<rparr>)))))"

definition step_cmd :: "Command \<Rightarrow> state \<Rightarrow> error + (flow \<times> Command \<times> state)" where
  "step_cmd cmd_arg w0 =
     (let w = (if cmd cmd_arg = ''DISCONNECT''
               then w0\<lparr>steps_to_execute := steps_to_execute w0 @ [cmd_arg]\<rparr> else w0)
      in if cmd cmd_arg = ''PUB'' then step_pub cmd_arg w
         else if cmd cmd_arg = ''DELAY'' then step_delay cmd_arg w
         else if cmd cmd_arg = ''DELAY_MS'' then step_delay cmd_arg w
         else if cmd cmd_arg = ''DELAY_H'' then step_delay cmd_arg w
         else Inr (Next, cmd_arg, w))"

text \<open>
  The second loop over \<^verbatim>\<open>config.commands\<close>. \<open>seen\<close> are the commands already
  visited, as the loop left them; when the loop ends, \<^verbatim>\<open>config.commands\<close> holds them,
  followed by the commands not visited.
\<close>

fun step_pass :: "Command list \<Rightarrow> Command list \<Rightarrow> state \<Rightarrow> error + state" where
  "step_pass seen [] w = Inr (w\<lparr>commands := seen\<rparr>)"
| "step_pass seen (cmd_arg # rest) w =
     (case step_cmd cmd_arg w of
        Inl e \<Rightarrow> Inl e
      | Inr (Break, c', w') \<Rightarrow> Inr (w'\<lparr>commands := seen @ c' # rest\<rparr>)
      | Inr (Next, c', w') \<Rightarrow> step_pass (seen @ [c']) rest w')"

subsection \<open>\<^verbatim>\<open>cmdscript_parse\<close>\<close>

text \<open>The lines the tokenizer keeps, with the state after its warnings.\<close>

definition kept_lines :: "string \<Rightarrow> state \<Rightarrow> error + (string list \<times> state)" where
  "kept_lines text w =
     (let cmdscript = split_on LF (replace_crlf text)
      in case lines_to_rm_index 0 (take (length cmdscript - 1) cmdscript) w of
           Inl e \<Rightarrow> Inl e
         | Inr (rm, w') \<Rightarrow> Inr (remove_lines rm 0 cmdscript, w'))"

definition cmdscript_parse :: "string \<Rightarrow> state \<Rightarrow> error + state" where
  "cmdscript_parse text w =
     (case kept_lines text w of
        Inl e \<Rightarrow> Inl e
      | Inr (cmdscript, w1) \<Rightarrow>
          (let w2 = w1\<lparr>commands := commands w1 @ map command_of_line cmdscript\<rparr>
           in case config_pass (commands w2) w2 of
                Inl e \<Rightarrow> Inl e
              | Inr w3 \<Rightarrow> step_pass [] (commands w3) w3))"

subsection \<open>Python's true division of integers\<close>

text \<open>
  \<^verbatim>\<open>a / b\<close> on two Python integers gives a float: the IEEE 754 double nearest to the
  exact quotient, ties going to the even significand, \<^verbatim>\<open>OverflowError\<close> when that
  double would not be finite, \<^verbatim>\<open>ZeroDivisionError\<close> when \<open>b\<close> is zero. A double is
  held here as the rational number it denotes.
\<close>

text \<open>The integer \<open>e\<close> with \<open>2^e \<le> a < 2^(e+1)\<close>, for a positive rational \<open>a\<close>.\<close>

definition floor_log2 :: "rat \<Rightarrow> int" where
  "floor_log2 a =
     (case quotient_of a of
        (p, q) \<Rightarrow> (let k = bitlen p - bitlen q in if 2 powi k \<le> a then k else k - 1))"

definition round_half_even :: "rat \<Rightarrow> int" where
  "round_half_even x =
     (let f = \<lfloor>x\<rfloor>; r = x - of_int f
      in if r < 1 / 2 then f else if 1 / 2 < r then f + 1 else if even f then f else f + 1)"

text \<open>Rounding to a double: 53 significant bits, least exponent \<open>-1022\<close>, overflow from
  \<open>2^1024\<close> on.\<close>

definition round_to_double :: "rat \<Rightarrow> rat option" where
  "round_to_double x =
     (if x = 0 then Some 0
      else (let a = \<bar>x\<bar>;
                e = max (floor_log2 a) (- 1022);
                ulp = 2 powi (e - 52);
                d = of_int (round_half_even (a / ulp)) * ulp
            in if 2 powi 1024 \<le> d then None else Some (if x < 0 then - d else d)))"

definition py_truediv :: "int \<Rightarrow> int \<Rightarrow> error + rat" where
  "py_truediv a b =
     (if b = 0 then Inl ZeroDivisionError
      else (case round_to_double (of_int a / of_int b) of
              None \<Rightarrow> Inl OverflowError
            | Some d \<Rightarrow> Inr d))"

subsection \<open>The interpreter\<close>

text \<open>\<^verbatim>\<open>time()\<close>\<close>

definition time :: "(nat \<Rightarrow> rat) \<Rightarrow> state \<Rightarrow> rat \<times> state" where
  "time clock w = (clock (time_calls w), w\<lparr>time_calls := Suc (time_calls w)\<rparr>)"

text \<open>
  The body of the loop of \<^verbatim>\<open>manage_publish_each_time\<close> for one entry; the entry is an
  object of the list, so what the body assigns to it stays in the list.
  \<^verbatim>\<open>time() - None\<close> raises \<^verbatim>\<open>TypeError\<close>.
\<close>

definition publish_each_entry ::
  "(nat \<Rightarrow> rat) \<Rightarrow> ConfigPublishEach \<Rightarrow> state \<Rightarrow> error + (ConfigPublishEach \<times> state)" where
  "publish_each_entry clock entry w =
     (let p = (if time_last_pub entry = None
               then entry\<lparr>time_last_pub := time_mqtt_connected w\<rparr> else entry)
      in case time clock w of
           (now, w1) \<Rightarrow>
             (case time_last_pub p of
                None \<Rightarrow> Inl TypeError
              | Some t_last \<Rightarrow>
                  if of_int (each p) \<le> now - t_last then
                    (let w2 = logger (Info ''Publish msg each'') w1;
                         w3 = logger (Mqtt_publish (topic p) (S (msg p)) (I (qos p))) w2
                     in case time clock w3 of
                          (now', w4) \<Rightarrow> Inr (p\<lparr>time_last_pub := Some now'\<rparr>, w4))
                  else Inr (p, w1)))"

fun publish_each_loop ::
  "(nat \<Rightarrow> rat) \<Rightarrow> ConfigPublishEach list \<Rightarrow> ConfigPublishEach list \<Rightarrow> state \<Rightarrow> error + state" where
  "publish_each_loop clock seen [] w = Inr (w\<lparr>pub_each := seen\<rparr>)"
| "publish_each_loop clock seen (entry # rest) w =
     (case publish_each_entry clock entry w of
        Inl e \<Rightarrow> Inl e
      | Inr (entry', w') \<Rightarrow> publish_each_loop clock (seen @ [entry']) rest w')"

definition manage_publish_each_time :: "(nat \<Rightarrow> rat) \<Rightarrow> state \<Rightarrow> error + state" where
  "manage_publish_each_time clock w = publish_each_loop clock [] (pub_each w) w"

text \<open>
  The local \<^verbatim>\<open>wait_t\<close> of \<^verbatim>\<open>run_step_cmd\<close>: the duration of a delay step, in
  seconds: the argument itself for \<^verbatim>\<open>DELAY\<close>, the float \<^verbatim>\<open>args[0] / 1000\<close> for
  \<^verbatim>\<open>DELAY_MS\<close>, the integer \<^verbatim>\<open>args[0] * 3600\<close> for \<^verbatim>\<open>DELAY_H\<close>. With an argument
  that is still a string the call ends in \<^verbatim>\<open>TypeError\<close> (at the division, or at the
  comparison with the elapsed time).
\<close>

definition wait_t :: "Command \<Rightarrow> error + rat" where
  "wait_t cmd_arg =
     (case args cmd_arg of
        [] \<Rightarrow> Inl IndexError
      | S s # _ \<Rightarrow> Inl TypeError
      | I n # _ \<Rightarrow>
          if cmd cmd_arg = ''DELAY_MS'' then py_truediv n 1000
          else if cmd cmd_arg = ''DELAY_H'' then Inr (of_int (n * 3600))
          else Inr (of_int n))"

definition run_delay :: "(nat \<Rightarrow> rat) \<Rightarrow> Command \<Rightarrow> state \<Rightarrow> error + (bool \<times> state)" where
  "run_delay clock cmd_arg w =
     (case wait_t cmd_arg of
        Inl e \<Rightarrow> Inl e
      | Inr d \<Rightarrow>
          (let w1 = (if t_wait_start w = None
                     then (case time clock w of
                             (t, w') \<Rightarrow> logger (Info ''Delay wait'') (w'\<lparr>t_wait_start := Some t\<rparr>))
                     else w)
           in case time clock w1 of
                (now, w2) \<Rightarrow>
                  (case t_wait_start w2 of
                     None \<Rightarrow> Inl TypeError
                   | Some t0 \<Rightarrow>
                       if d \<le> now - t0
                       then Inr (True, (logger (Info ''Delay wait done'') w2)\<lparr>t_wait_start := None\<rparr>)
                       else Inr (False, w2))))"

text \<open>\<^verbatim>\<open>run_step_cmd\<close>: the flag returned says whether the step is completed.\<close>

definition run_step_cmd :: "(nat \<Rightarrow> rat) \<Rightarrow> Command \<Rightarrow> state \<Rightarrow> error + (bool \<times> state)" where
  "run_step_cmd clock cmd_arg w =
     (if cmd cmd_arg = ''DISCONNECT'' then
        Inr (True, (logger Mqtt_disconnect (logger (Info ''Disconnect'') w))\<lparr>app_exit := True\<rparr>)
      else if cmd cmd_arg = ''PUB'' then
        (if length (args cmd_arg) < 3 then Inl IndexError
         else Inr (True,
                logger (Mqtt_publish (args cmd_arg ! 1) (args cmd_arg ! 2) (args cmd_arg ! 0))
                  (logger (Info ''Publish msg'') w)))
      else if cmd cmd_arg = ''DELAY'' \<or> cmd cmd_arg = ''DELAY_MS'' \<or> cmd cmd_arg = ''DELAY_H''
        then run_delay clock cmd_arg w
      else Inr (False, w))"

text \<open>
  What one pass of the \<^verbatim>\<open>while not app_exit\<close> loop finds: whether the client is
  connected, whether a termination signal has arrived since the last pass, and the time
  the connect callback has stored since then, if it ran. The callbacks and the signal
  handler run on their own; the model lets their writes land between two passes.
\<close>

record tick_env =
  is_connected :: bool
  signal_received :: bool
  connected_at :: "rat option"

definition observe :: "tick_env \<Rightarrow> state \<Rightarrow> state" where
  "observe env w =
     w\<lparr>app_exit := (if signal_received env then True else app_exit w),
       time_mqtt_connected :=
         (case connected_at env of None \<Rightarrow> time_mqtt_connected w | Some t \<Rightarrow> Some t)\<rparr>"

text \<open>The body of the \<^verbatim>\<open>while\<close> loop of \<^verbatim>\<open>cmdscript_interpreter\<close>, on the local
  \<^verbatim>\<open>step\<close> and the global state.\<close>

definition tick :: "(nat \<Rightarrow> rat) \<Rightarrow> tick_env \<Rightarrow> nat \<Rightarrow> state \<Rightarrow> error + (nat \<times> state)" where
  "tick clock env step w =
     (if is_connected env then
        (case manage_publish_each_time clock w of
           Inl e \<Rightarrow> Inl e
         | Inr w1 \<Rightarrow>
             if step < length (steps_to_execute w1) then
               (case run_step_cmd clock (steps_to_execute w1 ! step) w1 of
                  Inl e \<Rightarrow> Inl e
                | Inr (completed, w2) \<Rightarrow> Inr (if completed then step + 1 else step, w2))
             else Inr (step, w1))
      else Inr (step, w))"

text \<open>
  The \<^verbatim>\<open>while not app_exit\<close> loop, run over the passes observed so far: it ends when
  \<^verbatim>\<open>app_exit\<close> is set, and is still running when the observations end before that.
\<close>

fun interpreter_loop ::
  "(nat \<Rightarrow> rat) \<Rightarrow> tick_env list \<Rightarrow> nat \<Rightarrow> state \<Rightarrow> error + (nat \<times> state)" where
  "interpreter_loop clock [] step w = Inr (step, w)"
| "interpreter_loop clock (env # envs) step w =
     (let w0 = observe env w
      in if app_exit w0 then Inr (step, w0)
         else (case tick clock env step w0 of
                 Inl e \<Rightarrow> Inl e
               | Inr (step', w') \<Rightarrow> interpreter_loop clock envs step' w'))"

text \<open>
  \<^verbatim>\<open>cmdscript_interpreter\<close>. The result is \<open>None\<close> while the loop is still running
  at the end of the observations. The calls on the MQTT client are taken to return.
\<close>

definition cmdscript_interpreter ::
  "(nat \<Rightarrow> rat) \<Rightarrow> string \<Rightarrow> tick_env list \<Rightarrow> state \<Rightarrow> error + (int option \<times> state)" where
  "cmdscript_interpreter clock uuid envs w =
     (let w1 = logger (Info ''Launching MQTT Connection...'') w;
          w2 = (if client_id w1 = S [] then w1\<lparr>client_id := S (''mqttcmdscript_'' @ uuid)\<rparr> else w1);
          w3 = logger (Mqtt_connect (mqtt_host w2) (mqtt_port w2) (keepalive_s w2)) w2
      in case interpreter_loop clock envs 0 w3 of
           Inl e \<Rightarrow> Inl e
         | Inr (step, w4) \<Rightarrow>
             if app_exit w4 then
               Inr (Some RC_OK,
                    logger (Info ''MQTT Closed'')
                      (logger Mqtt_loop_stop
                        (logger Mqtt_disconnect (logger (Info ''Disconnecting from MQTT'') w4))))
             else Inr (None, w4))"

subsection \<open>\<^verbatim>\<open>main\<close>\<close>

text \<open>A path of the file system names nothing, a file whose text can be read, or a file
  that \<^verbatim>\<open>open\<close> or \<^verbatim>\<open>read\<close> raises on.\<close>

datatype fs_entry = Readable string | Unreadable

text \<open>\<^verbatim>\<open>file_read_all_text\<close> of \<^verbatim>\<open>filesrw.py\<close>\<close>

definition file_read_all_text :: "(string \<Rightarrow> fs_entry option) \<Rightarrow> string \<Rightarrow> state \<Rightarrow> string \<times> state" where
  "file_read_all_text files file_path w =
     (case files file_path of
        None \<Rightarrow> ([], logger (Error_file_not_found file_path) w)
      | Some Unreadable \<Rightarrow> ([], logger (Error_cannot_read file_path) (logger Error_traceback w))
      | Some (Readable text) \<Rightarrow> (text, w))"

text \<open>
  \<^verbatim>\<open>main\<close>. \<open>options_file\<close> is what \<^verbatim>\<open>parse_options()\<close> gives for \<^verbatim>\<open>--file\<close>, or
  \<open>None\<close> when \<^verbatim>\<open>argparse\<close> leaves the program instead.
\<close>

definition main ::
  "(nat \<Rightarrow> rat) \<Rightarrow> string \<Rightarrow> tick_env list \<Rightarrow> (string \<Rightarrow> fs_entry option) \<Rightarrow> nat \<Rightarrow> string option
     \<Rightarrow> state \<Rightarrow> error + (int option \<times> state)" where
  "main clock uuid envs files argc options_file w =
     (if argc = 0 then Inr (Some RC_NO_ARGS, logger Print_help w)
      else (case options_file of
        None \<Rightarrow> Inl SystemExit
      | Some path_cmdscript \<Rightarrow>
          (case file_read_all_text files path_cmdscript w of
             (cmdscript, w1) \<Rightarrow>
               if cmdscript = [] then Inr (Some RC_FAIL, w1)
               else (case cmdscript_parse cmdscript w1 of
                 Inl e \<Rightarrow> Inl e
               | Inr w2 \<Rightarrow>
                   if invalid w2 then Inr (Some RC_FAIL, logger (Info ''Invalid cmdscript.'') w2)
                   else cmdscript_interpreter clock uuid envs w2))))"

subsection \<open>Notions used by the statements below\<close>

text \<open>Two successive calls of \<^verbatim>\<open>cmdscript_parse\<close> on the same text: the second one
  starts from the global state the first one left.\<close>

definition parse_twice :: "string \<Rightarrow> state \<Rightarrow> error + state" where
  "parse_twice text w =
     (case cmdscript_parse text w of Inl e \<Rightarrow> Inl e | Inr w' \<Rightarrow> cmdscript_parse text w')"

text \<open>A pass rejects a command: it logs one of the two error lines and sets the invalid
  flag, and does nothing else.\<close>

definition rejected :: "Command \<Rightarrow> state \<Rightarrow> state \<Rightarrow> bool" where
  "rejected c w w' = (w' = missing_arg c w \<or> w' = invalid_arg c w)"

text \<open>A pass accepts a command of the Configuration Builder: only settings change, and
  subscriptions are added at the end of their list, if any.\<close>

definition settings_only :: "state \<Rightarrow> state \<Rightarrow> bool" where
  "settings_only w w' =
     (commands w' = commands w \<and> steps_to_execute w' = steps_to_execute w \<and>
      invalid w' = invalid w \<and> events w' = events w \<and> app_exit w' = app_exit w \<and>
      (\<exists>ss. subscriptions w' = subscriptions w @ ss))"

text \<open>
  The grammar of the commands as the tables of the specification give it, for a command as
  the tokenizer makes it (all its arguments are strings): the number of arguments a
  keyword needs, and what they must be. \<open>config_violation\<close> and \<open>step_violation\<close> give
  the error line a command deserves in the Configuration Builder and in the Step Compiler:
  the missing-argument line when it has too few arguments, the invalid-argument line when
  an argument is not what the table asks for, none otherwise.
\<close>

definition raw_command :: "Command \<Rightarrow> bool" where
  "raw_command c = list_all (\<lambda>a. case a of S s \<Rightarrow> True | I n \<Rightarrow> False) (args c)"

definition is_integer :: "arg \<Rightarrow> bool" where
  "is_integer a = (case a of S s \<Rightarrow> py_int s \<noteq> None | I n \<Rightarrow> False)"

definition yes_or_no :: "arg \<Rightarrow> bool" where
  "yes_or_no a = (a = S ''YES'' \<or> a = S ''NO'')"

definition quoted_message :: "arg list \<Rightarrow> bool" where
  "quoted_message xs =
     (case join_args xs of
        Inl e \<Rightarrow> False
      | Inr m \<Rightarrow> 3 \<le> length m \<and> hd m = DQUOTE \<and> last m = DQUOTE)"

definition grammar_error :: "nat \<Rightarrow> bool \<Rightarrow> Command \<Rightarrow> event option" where
  "grammar_error arity well_formed c =
     (if length (args c) < arity then Some (Error_missing_arg (cmd c))
      else if well_formed then None
      else Some (Error_invalid_arg (cmd c) (args c)))"

definition config_violation :: "Command \<Rightarrow> event option" where
  "config_violation c =
     (if cmd c = ''CFG_CLIENT_ID'' then grammar_error 1 True c
      else if cmd c = ''CFG_CLEAN_SESSION'' then grammar_error 1 (yes_or_no (args c ! 0)) c
      else if cmd c = ''CFG_KEEPALIVE'' then grammar_error 1 (is_integer (args c ! 0)) c
      else if cmd c = ''CFG_USER'' then grammar_error 2 True c
      else if cmd c = ''CFG_TLS_CERT'' then grammar_error 2 True c
      else if cmd c = ''CFG_USE_TLS'' then grammar_error 1 (yes_or_no (args c ! 0)) c
      else if cmd c = ''CFG_PUB_EACH'' then
        grammar_error 4
          (is_integer (args c ! 0) \<and> is_integer (args c ! 1) \<and> quoted_message (drop 3 (args c))) c
      else if cmd c = ''SUB'' then grammar_error 3 (is_integer (args c ! 0)) c
      else if cmd c = ''CONNECT'' then grammar_error 2 (is_integer (args c ! 1)) c
      else None)"

definition step_violation :: "Command \<Rightarrow> event option" where
  "step_violation c =
     (if cmd c = ''PUB'' then
        grammar_error 3 (is_integer (args c ! 0) \<and> quoted_message (drop 2 (args c))) c
      else if cmd c = ''DELAY'' \<or> cmd c = ''DELAY_MS'' \<or> cmd c = ''DELAY_H'' then
        grammar_error 1 (is_integer (args c ! 0)) c
      else None)"

text \<open>What a pass does with the error line of a command it rejects.\<close>

definition reject :: "event \<Rightarrow> state \<Rightarrow> state" where
  "reject e w = (logger e w)\<lparr>invalid := True\<rparr>"

text \<open>A line whose only white space is the space character.\<close>

definition spaces_only :: "string \<Rightarrow> bool" where
  "spaces_only line = list_all (\<lambda>c. if py_isspace c then c = SPACE else True) line"

section \<open>Properties\<close>

subsection \<open>Fields the helpers leave alone\<close>

lemma logger_fields [simp]:
  "commands (logger e w) = commands w"
  "steps_to_execute (logger e w) = steps_to_execute w"
  "pub_each (logger e w) = pub_each w"
  "subscriptions (logger e w) = subscriptions w"
  "invalid (logger e w) = invalid w"
  "app_exit (logger e w) = app_exit w"
  "events (logger e w) = events w @ [e]"
  by (simp_all add: logger_def)

lemma missing_arg_fields [simp]:
  "commands (missing_arg c w) = commands w"
  "steps_to_execute (missing_arg c w) = steps_to_execute w"
  "pub_each (missing_arg c w) = pub_each w"
  "subscriptions (missing_arg c w) = subscriptions w"
  "invalid (missing_arg c w) = True"
  "app_exit (missing_arg c w) = app_exit w"
  "events (missing_arg c w) = events w @ [Error_missing_arg (cmd c)]"
  by (simp_all add: missing_arg_def)

lemma invalid_arg_fields [simp]:
  "commands (invalid_arg c w) = commands w"
  "steps_to_execute (invalid_arg c w) = steps_to_execute w"
  "pub_each (invalid_arg c w) = pub_each w"
  "subscriptions (invalid_arg c w) = subscriptions w"
  "invalid (invalid_arg c w) = True"
  "app_exit (invalid_arg c w) = app_exit w"
  "events (invalid_arg c w) = events w @ [Error_invalid_arg (cmd c) (args c)]"
  by (simp_all add: invalid_arg_def)

lemma is_int_True: "is_int a = Inr True \<Longrightarrow> \<exists>s n. a = S s \<and> py_int s = Some n"
  by (cases a) auto

subsection \<open>The Configuration Builder, command by command\<close>

lemma cfg_client_id_cases:
  "cfg_client_id c w = Inr w' \<Longrightarrow> rejected c w w' \<or> (settings_only w w' \<and> pub_each w' = pub_each w)"
  by (auto simp: cfg_client_id_def rejected_def settings_only_def split: if_splits)

lemma cfg_clean_session_cases:
  "cfg_clean_session c w = Inr w' \<Longrightarrow> rejected c w w' \<or> (settings_only w w' \<and> pub_each w' = pub_each w)"
  by (auto simp: cfg_clean_session_def rejected_def settings_only_def split: if_splits sum.splits)

lemma cfg_keepalive_cases:
  "cfg_keepalive c w = Inr w' \<Longrightarrow> rejected c w w' \<or> (settings_only w w' \<and> pub_each w' = pub_each w)"
  by (auto simp: cfg_keepalive_def rejected_def settings_only_def split: if_splits sum.splits)

lemma cfg_user_cases:
  "cfg_user c w = Inr w' \<Longrightarrow> rejected c w w' \<or> (settings_only w w' \<and> pub_each w' = pub_each w)"
  by (auto simp: cfg_user_def rejected_def settings_only_def split: if_splits)

lemma cfg_tls_cert_cases:
  "cfg_tls_cert c w = Inr w' \<Longrightarrow> rejected c w w' \<or> (settings_only w w' \<and> pub_each w' = pub_each w)"
  by (auto simp: cfg_tls_cert_def rejected_def settings_only_def split: if_splits)

lemma cfg_use_tls_cases:
  "cfg_use_tls c w = Inr w' \<Longrightarrow> rejected c w w' \<or> (settings_only w w' \<and> pub_each w' = pub_each w)"
  by (auto simp: cfg_use_tls_def rejected_def settings_only_def split: if_splits sum.splits)

lemma cfg_sub_cases:
  "cfg_sub c w = Inr w' \<Longrightarrow> rejected c w w' \<or> (settings_only w w' \<and> pub_each w' = pub_each w)"
  by (auto simp: cfg_sub_def rejected_def settings_only_def split: if_splits sum.splits)

lemma cfg_connect_cases:
  "cfg_connect c w = Inr w' \<Longrightarrow> rejected c w w' \<or> (settings_only w w' \<and> pub_each w' = pub_each w)"
  by (auto simp: cfg_connect_def rejected_def settings_only_def split: if_splits sum.splits)

lemma cfg_pub_each_cases:
  assumes "cfg_pub_each c w = Inr w'"
  shows "rejected c w w' \<or>
     (\<exists>a n q m. args c ! 0 = S a \<and> py_int a = Some n \<and>
        w' = w\<lparr>pub_each := pub_each w @
                 [\<lparr>each = n, qos = q, topic = args c ! 2, msg = m, time_last_pub = Some 0\<rparr>]\<rparr>)"
proof (cases "length (args c) < 4")
  case True
  with assms show ?thesis by (simp add: cfg_pub_each_def rejected_def)
next
  case long: False
  show ?thesis
  proof (cases "is_int (args c ! 0)")
    case (Inl e)
    with assms long show ?thesis by (simp add: cfg_pub_each_def)
  next
    case (Inr b0)
    show ?thesis
    proof (cases b0)
      case False
      with assms long Inr show ?thesis by (simp add: cfg_pub_each_def rejected_def)
    next
      case True
      with Inr have "is_int (args c ! 0) = Inr True" by simp
      then obtain a n where a: "args c ! 0 = S a" "py_int a = Some n"
        using is_int_True by blast
      with assms long show ?thesis
        by (auto simp: cfg_pub_each_def rejected_def split: sum.splits if_splits option.splits)
    qed
  qed
qed

lemma config_cmd_cases:
  assumes "config_cmd c w = Inr w'"
  shows "rejected c w w' \<or> (settings_only w w' \<and> pub_each w' = pub_each w) \<or>
     (cmd c = ''CFG_PUB_EACH'' \<and> (\<exists>a n q m. args c ! 0 = S a \<and> py_int a = Some n \<and>
        w' = w\<lparr>pub_each := pub_each w @
                 [\<lparr>each = n, qos = q, topic = args c ! 2, msg = m, time_last_pub = Some 0\<rparr>]\<rparr>))"
proof -
  consider (a) "cmd c = ''CFG_CLIENT_ID''" | (b) "cmd c = ''CFG_CLEAN_SESSION''"
    | (c) "cmd c = ''CFG_KEEPALIVE''" | (d) "cmd c = ''CFG_USER''" | (e) "cmd c = ''CFG_TLS_CERT''"
    | (f) "cmd c = ''CFG_USE_TLS''" | (g) "cmd c = ''CFG_PUB_EACH''" | (h) "cmd c = ''SUB''"
    | (i) "cmd c = ''CONNECT''"
    | (j) "cmd c \<notin> set [''CFG_CLIENT_ID'', ''CFG_CLEAN_SESSION'', ''CFG_KEEPALIVE'', ''CFG_USER'',
             ''CFG_TLS_CERT'', ''CFG_USE_TLS'', ''CFG_PUB_EACH'', ''SUB'', ''CONNECT'']"
    by auto
  then show ?thesis
  proof cases
    case a with assms show ?thesis using cfg_client_id_cases [of c w w'] by (simp add: config_cmd_def)
  next
    case b with assms show ?thesis using cfg_clean_session_cases [of c w w'] by (simp add: config_cmd_def)
  next
    case c with assms show ?thesis using cfg_keepalive_cases [of c w w'] by (simp add: config_cmd_def)
  next
    case d with assms show ?thesis using cfg_user_cases [of c w w'] by (simp add: config_cmd_def)
  next
    case e with assms show ?thesis using cfg_tls_cert_cases [of c w w'] by (simp add: config_cmd_def)
  next
    case f with assms show ?thesis using cfg_use_tls_cases [of c w w'] by (simp add: config_cmd_def)
  next
    case g
    with assms have "cfg_pub_each c w = Inr w'" by (simp add: config_cmd_def)
    from cfg_pub_each_cases [OF this] g show ?thesis by blast
  next
    case h with assms show ?thesis using cfg_sub_cases [of c w w'] by (simp add: config_cmd_def)
  next
    case i with assms show ?thesis using cfg_connect_cases [of c w w'] by (simp add: config_cmd_def)
  next
    case j with assms have "w' = w" by (simp add: config_cmd_def)
    then show ?thesis by (simp add: settings_only_def)
  qed
qed

subsection \<open>Keyword case (C1)\<close>

text \<open>
  Claim C1: a line whose keyword is written in lower case is parsed like the same line in
  upper case. The code upper-cases the keyword when it builds the command, but the test
  against the supported keywords, made before, compares the first token as written. The
  script of the one line \<^verbatim>\<open>pub 0 a/b "x"\<close> (ended by a newline) is dropped with a
  warning and compiles to no step, while \<^verbatim>\<open>PUB 0 a/b "x"\<close> compiles to one publish
  step.
\<close>

theorem C1_lowercase_keyword_dropped:
  "map_sum id (\<lambda>w. (commands w, steps_to_execute w, events w))
       (cmdscript_parse (''pub 0 a/b '' @ [DQUOTE] @ ''x'' @ [DQUOTE, LF]) initial_state)
     = Inr ([\<lparr>cmd = [], args = []\<rparr>], [],
            [Warn_unexpected_cmd (''pub 0 a/b '' @ [DQUOTE] @ ''x'' @ [DQUOTE])])
   \<and> map_sum id (\<lambda>w. (commands w, steps_to_execute w, events w))
       (cmdscript_parse (''PUB 0 a/b '' @ [DQUOTE] @ ''x'' @ [DQUOTE, LF]) initial_state)
     = Inr ([\<lparr>cmd = ''PUB'', args = [I 0, S ''a/b'', S ''x'']\<rparr>, \<lparr>cmd = [], args = []\<rparr>],
            [\<lparr>cmd = ''PUB'', args = [I 0, S ''a/b'', S ''x'']\<rparr>], [])"
  by code_simp

subsection \<open>The last-published time of a periodic publish (C3)\<close>

text \<open>
  Claim C3: the last-published time of a PeriodicPublish entry is unset after parsing, and
  the first sweep sets it to the time the connection was established. In the code the
  entry made by \<^verbatim>\<open>CFG_PUB_EACH\<close> keeps the class default, the number 0, so the test
  \<^verbatim>\<open>is None\<close> of the sweep fails: with a connection established at time 999 and a
  sweep at time 1000, an entry of interval 10 is published at once and its time becomes
  1000.
\<close>

theorem C3_last_pub_starts_at_zero:
  "map_sum id pub_each
       (cmdscript_parse (''CFG_PUB_EACH 10 0 t '' @ [DQUOTE] @ ''m'' @ [DQUOTE]) initial_state)
     = Inr [\<lparr>each = 10, qos = 0, topic = S ''t'', msg = ''m'', time_last_pub = Some 0\<rparr>]
   \<and> map_sum id (\<lambda>w. (pub_each w, events w))
       (manage_publish_each_time (\<lambda>k. 1000)
          (initial_state\<lparr>pub_each := [\<lparr>each = 10, qos = 0, topic = S ''t'', msg = ''m'',
                                        time_last_pub = Some 0\<rparr>],
                         time_mqtt_connected := Some 999\<rparr>))
     = Inr ([\<lparr>each = 10, qos = 0, topic = S ''t'', msg = ''m'', time_last_pub = Some 1000\<rparr>],
            [Info ''Publish msg each'', Mqtt_publish (S ''t'') (S ''m'') (I 0)])"
proof -
  have a: "map_sum id pub_each
       (cmdscript_parse (''CFG_PUB_EACH 10 0 t '' @ [DQUOTE] @ ''m'' @ [DQUOTE]) initial_state)
     = Inr [\<lparr>each = 10, qos = 0, topic = S ''t'', msg = ''m'', time_last_pub = Some 0\<rparr>]"
    by code_simp
  have b: "map_sum id (\<lambda>w. (pub_each w, events w))
       (manage_publish_each_time (\<lambda>k. 1000)
          (initial_state\<lparr>pub_each := [\<lparr>each = 10, qos = 0, topic = S ''t'', msg = ''m'',
                                        time_last_pub = Some 0\<rparr>],
                         time_mqtt_connected := Some 999\<rparr>))
     = Inr ([\<lparr>each = 10, qos = 0, topic = S ''t'', msg = ''m'', time_last_pub = Some 1000\<rparr>],
            [Info ''Publish msg each'', Mqtt_publish (S ''t'') (S ''m'') (I 0)])"
    by (simp add: manage_publish_each_time_def publish_each_entry_def initial_state_def time_def
        logger_def Let_def)
  from a b show ?thesis by (rule conjI)
qed

subsection \<open>Lines the tokenizer keeps (C5)\<close>

text \<open>
  Claim C5: no empty line and no comment line becomes a command, whether or not the text
  ends with a newline, and a line with an unknown keyword is dropped with one warning. The
  loop that marks the lines to drop stops one line before the end, so the last line is
  always kept and never tested: a text ending with a newline yields a command with the
  empty keyword, a last line \<^verbatim>\<open># done\<close> yields the command \<^verbatim>\<open>#\<close>, and a last line
  with an unknown keyword is kept without a warning.
\<close>

theorem C5_last_line_always_kept:
  "map_sum id (\<lambda>w. (commands w, events w, invalid w))
       (cmdscript_parse (''CONNECT h 1'' @ [LF]) initial_state)
     = Inr ([\<lparr>cmd = ''CONNECT'', args = [S ''h'', S ''1'']\<rparr>, \<lparr>cmd = [], args = []\<rparr>], [], False)
   \<and> map_sum id (\<lambda>w. (commands w, events w, invalid w))
       (cmdscript_parse (''CONNECT h 1'' @ [LF] @ ''# done'') initial_state)
     = Inr ([\<lparr>cmd = ''CONNECT'', args = [S ''h'', S ''1'']\<rparr>, \<lparr>cmd = ''#'', args = [S ''done'']\<rparr>],
            [], False)
   \<and> map_sum id (\<lambda>w. (commands w, events w, invalid w))
       (cmdscript_parse (''CONNECT h 1'' @ [LF] @ ''FOO 1'') initial_state)
     = Inr ([\<lparr>cmd = ''CONNECT'', args = [S ''h'', S ''1'']\<rparr>, \<lparr>cmd = ''FOO'', args = [S ''1'']\<rparr>],
            [], False)"
  by code_simp

subsection \<open>The float division\<close>

lemma pow2_less_cancel:
  assumes "(2::rat) powi i < 2 powi j"
  shows "i < j"
proof (rule ccontr)
  assume "\<not> i < j"
  then have "j \<le> i" by simp
  then have "(2::rat) powi j \<le> 2 powi i" by (rule power_int_increasing) simp
  with assms show False by simp
qed

lemma floor_log2_bounds:
  assumes "0 < a"
  shows "2 powi (floor_log2 a) \<le> a \<and> a < 2 powi (floor_log2 a + 1)"
proof -
  obtain p q where pq: "quotient_of a = (p, q)" by (cases "quotient_of a")
  then have q: "0 < q" and a: "a = of_int p / of_int q"
    using quotient_of_denom_pos quotient_of_div by auto
  from assms a q have p: "0 < p"
    by (simp add: zero_less_divide_iff)
  define bp where "bp = bitlen p"
  define bq where "bq = bitlen q"
  define k where "k = bp - bq"
  from bitlen_bounds [OF p] have bp1: "2 ^ nat (bp - 1) \<le> p" and bp2: "p < 2 ^ nat bp"
    by (simp_all add: bp_def)
  from bitlen_bounds [OF q] have bq1: "2 ^ nat (bq - 1) \<le> q" and bq2: "q < 2 ^ nat bq"
    by (simp_all add: bq_def)
  have bpp: "1 \<le> bp" using p by (auto simp: bp_def bitlen_alt_def)
  have bqp: "1 \<le> bq" using q by (auto simp: bq_def bitlen_alt_def)
  have P1: "(2::rat) powi (bp - 1) \<le> of_int p"
  proof -
    have "(of_int (2 ^ nat (bp - 1)) :: rat) \<le> of_int p" using bp1 by (simp only: of_int_le_iff)
    then show ?thesis using bpp by (simp add: power_int_def)
  qed
  have P2: "(of_int p :: rat) < 2 powi bp"
  proof -
    have "(of_int p :: rat) < of_int (2 ^ nat bp)" using bp2 by (simp only: of_int_less_iff)
    then show ?thesis using bpp by (simp add: power_int_def)
  qed
  have Q1: "(2::rat) powi (bq - 1) \<le> of_int q"
  proof -
    have "(of_int (2 ^ nat (bq - 1)) :: rat) \<le> of_int q" using bq1 by (simp only: of_int_le_iff)
    then show ?thesis using bqp by (simp add: power_int_def)
  qed
  have Q2: "(of_int q :: rat) < 2 powi bq"
  proof -
    have "(of_int q :: rat) < of_int (2 ^ nat bq)" using bq2 by (simp only: of_int_less_iff)
    then show ?thesis using bqp by (simp add: power_int_def)
  qed
  have qpos: "(0::rat) < of_int q" using q by simp
  have ppos: "(0::rat) < of_int p" using p by simp
  have pw: "\<And>i. (0::rat) < 2 powi i" by (simp add: zero_less_power_int)
  have up: "a < 2 powi (k + 1)"
  proof -
    have "a * 2 powi (bq - 1) \<le> a * of_int q"
      using Q1 assms by (simp add: mult_left_mono)
    also have "\<dots> = of_int p" using a qpos by simp
    also have "\<dots> < 2 powi bp" by (rule P2)
    finally have "a * 2 powi (bq - 1) < 2 powi bp" .
    then have "a < 2 powi bp / 2 powi (bq - 1)"
      using pw [of "bq - 1"] by (simp add: pos_less_divide_eq)
    also have "\<dots> = 2 powi (bp - (bq - 1))"
      by (simp add: power_int_diff)
    finally show ?thesis by (simp add: k_def algebra_simps)
  qed
  have lo: "2 powi (k - 1) < a"
  proof -
    have "2 powi (bp - 1) \<le> (of_int p :: rat)" by (rule P1)
    also have "\<dots> = a * of_int q" using a qpos by simp
    also have "\<dots> < a * 2 powi bq" using Q2 assms by (simp add: mult_strict_left_mono)
    finally have "2 powi (bp - 1) < a * 2 powi bq" .
    then have "2 powi (bp - 1) / 2 powi bq < a"
      using pw [of bq] by (simp add: pos_divide_less_eq)
    moreover have "(2::rat) powi (bp - 1) / 2 powi bq = 2 powi (bp - 1 - bq)"
      by (simp add: power_int_diff)
    ultimately show ?thesis by (simp add: k_def algebra_simps)
  qed
  have fl: "floor_log2 a = (if 2 powi k \<le> a then k else k - 1)"
    by (simp add: floor_log2_def pq k_def bp_def bq_def Let_def)
  show ?thesis
  proof (cases "2 powi k \<le> a")
    case True
    with fl up show ?thesis by simp
  next
    case False
    with fl lo show ?thesis by (simp add: less_imp_le)
  qed
qed

lemma round_half_even_near: "\<bar>of_int (round_half_even x) - x\<bar> \<le> 1 / 2"
proof -
  define f where "f = \<lfloor>x\<rfloor>"
  have f: "of_int f \<le> x" "x < of_int f + 1"
    unfolding f_def by linarith+
  have r: "round_half_even x =
      (if x - of_int f < 1 / 2 then f else if 1 / 2 < x - of_int f then f + 1
       else if even f then f else f + 1)"
    by (simp add: round_half_even_def Let_def f_def)
  show ?thesis
    unfolding r using f by (auto simp: abs_if)
qed

lemma round_half_even_mono_bounds:
  "of_int lo \<le> x \<Longrightarrow> lo \<le> round_half_even x"
  "x \<le> of_int hi \<Longrightarrow> round_half_even x \<le> hi"
proof -
  define f where "f = \<lfloor>x\<rfloor>"
  have f: "of_int f \<le> x" "x < of_int f + 1"
    unfolding f_def by linarith+
  have r: "round_half_even x =
      (if x - of_int f < 1 / 2 then f else if 1 / 2 < x - of_int f then f + 1
       else if even f then f else f + 1)"
    by (simp add: round_half_even_def Let_def f_def)
  show "lo \<le> round_half_even x" if "of_int lo \<le> x"
  proof -
    from that have "lo \<le> f" unfolding f_def by (simp add: le_floor_iff)
    then show ?thesis unfolding r by auto
  qed
  show "round_half_even x \<le> hi" if "x \<le> of_int hi"
  proof (cases "x = of_int hi")
    case True
    then have "f = hi" unfolding f_def by simp
    with True show ?thesis unfolding r by simp
  next
    case False
    with that have "x < of_int hi" by simp
    then have "f < hi" unfolding f_def by (simp add: floor_less_iff)
    then show ?thesis unfolding r by auto
  qed
qed

lemma round_to_double_near:
  assumes "x \<noteq> 0" and "- 1022 \<le> floor_log2 \<bar>x\<bar>" and "round_to_double x = Some d"
  shows "\<bar>d - x\<bar> \<le> \<bar>x\<bar> / 2 ^ 53"
proof -
  define a where "a = \<bar>x\<bar>"
  define e where "e = floor_log2 a"
  define ulp :: rat where "ulp = 2 powi (e - 52)"
  define m where "m = round_half_even (a / ulp)"
  have apos: "0 < a" using assms(1) by (simp add: a_def)
  have upos: "0 < ulp" by (simp add: ulp_def zero_less_power_int)
  from assms(2) have "max (floor_log2 a) (- 1022) = e" by (simp add: e_def a_def)
  with assms(1,3) have d: "d = (if x < 0 then - (of_int m * ulp) else of_int m * ulp)"
    by (auto simp: round_to_double_def Let_def a_def [symmetric] ulp_def m_def split: if_splits)
  have "\<bar>of_int m - a / ulp\<bar> \<le> 1 / 2" unfolding m_def by (rule round_half_even_near)
  then have "\<bar>of_int m - a / ulp\<bar> * ulp \<le> 1 / 2 * ulp"
    using upos by (simp add: mult_right_mono)
  moreover have "\<bar>of_int m - a / ulp\<bar> * ulp = \<bar>of_int m * ulp - a\<bar>"
  proof -
    have "\<bar>of_int m - a / ulp\<bar> * ulp = \<bar>(of_int m - a / ulp) * ulp\<bar>"
      using upos by (simp add: abs_mult)
    also have "(of_int m - a / ulp) * ulp = of_int m * ulp - a"
      using upos by (simp add: algebra_simps)
    finally show ?thesis .
  qed
  ultimately have near: "\<bar>of_int m * ulp - a\<bar> \<le> ulp / 2" by simp
  have "ulp / 2 = 2 powi e / 2 ^ 53"
  proof -
    have "(2::rat) powi (e - 52) = 2 powi e / 2 powi 52" by (simp add: power_int_diff)
    then show ?thesis by (simp add: ulp_def)
  qed
  also have "\<dots> \<le> a / 2 ^ 53"
    using floor_log2_bounds [OF apos] by (simp add: e_def divide_right_mono)
  finally have "ulp / 2 \<le> a / 2 ^ 53" .
  with near have n: "\<bar>of_int m * ulp - a\<bar> \<le> a / 2 ^ 53" by simp
  have "\<bar>d - x\<bar> = \<bar>of_int m * ulp - a\<bar>"
  proof (cases "x < 0")
    case True
    then have "d - x = - (of_int m * ulp - a)" by (simp add: d a_def)
    then show ?thesis by (simp only: abs_minus_cancel)
  next
    case False
    then have "d - x = of_int m * ulp - a" by (simp add: d a_def)
    then show ?thesis by simp
  qed
  with n show ?thesis by (simp add: a_def)
qed

text \<open>No overflow below \<open>2^1023\<close>.\<close>

lemma round_to_double_finite:
  assumes "\<bar>x\<bar> < 2 powi 1023"
  shows "\<exists>d. round_to_double x = Some d"
proof (cases "x = 0")
  case True
  then show ?thesis by (simp add: round_to_double_def)
next
  case False
  define a where "a = \<bar>x\<bar>"
  define e where "e = max (floor_log2 a) (- 1022)"
  define ulp :: rat where "ulp = 2 powi (e - 52)"
  define m where "m = round_half_even (a / ulp)"
  have apos: "0 < a" using False by (simp add: a_def)
  have upos: "0 < ulp" by (simp add: ulp_def zero_less_power_int)
  note b = floor_log2_bounds [OF apos]
  have "2 powi (floor_log2 a) < (2::rat) powi 1023"
    using b assms by (simp add: a_def)
  then have "floor_log2 a < 1023"
    by (rule pow2_less_cancel)
  then have e: "e \<le> 1022" by (simp add: e_def)
  have "floor_log2 a + 1 \<le> e + 1" by (simp add: e_def)
  then have "(2::rat) powi (floor_log2 a + 1) \<le> 2 powi (e + 1)"
    by (rule power_int_increasing) simp
  with b have "a < 2 powi (e + 1)" by simp
  moreover have "(2::rat) powi (e + 1) = 2 ^ 53 * ulp"
  proof -
    have "e + 1 = 53 + (e - 52)" by simp
    then have "(2::rat) powi (e + 1) = 2 powi (53 + (e - 52))" by (rule arg_cong)
    also have "\<dots> = 2 powi 53 * 2 powi (e - 52)" by (rule power_int_add) simp
    finally show ?thesis by (simp add: ulp_def)
  qed
  ultimately have "a / ulp < 2 ^ 53" using upos by (simp add: pos_divide_less_eq)
  then have "a / ulp \<le> of_int (2 ^ 53)" by simp
  then have "m \<le> 2 ^ 53" unfolding m_def by (rule round_half_even_mono_bounds(2))
  then have "(of_int m :: rat) \<le> 2 ^ 53" by (metis of_int_le_iff of_int_numeral of_int_power)
  then have "of_int m * ulp \<le> 2 ^ 53 * ulp" using upos by (simp add: mult_right_mono)
  also have "\<dots> = 2 powi (e + 1)" using \<open>2 powi (e + 1) = 2 ^ 53 * ulp\<close> by simp
  also have "\<dots> \<le> 2 powi 1023" by (rule power_int_increasing) (use e in auto)
  also have "\<dots> < (2::rat) powi 1024" by (rule power_int_strict_increasing) auto
  finally have "\<not> 2 powi 1024 \<le> of_int m * ulp" by simp
  then show ?thesis
    using False by (simp add: round_to_double_def Let_def a_def [symmetric] e_def [symmetric]
        ulp_def [symmetric] m_def [symmetric])
qed

text \<open>Overflow from \<open>2^1024\<close> on.\<close>

lemma round_to_double_overflow:
  assumes "2 powi 1024 \<le> \<bar>x\<bar>"
  shows "round_to_double x = None"
proof -
  define a where "a = \<bar>x\<bar>"
  define e where "e = max (floor_log2 a) (- 1022)"
  define ulp :: rat where "ulp = 2 powi (e - 52)"
  define m where "m = round_half_even (a / ulp)"
  have p: "(0::rat) < 2 powi 1024" by (simp add: zero_less_power_int)
  with assms have apos: "0 < a" by (simp add: a_def)
  then have x: "x \<noteq> 0" by (auto simp: a_def)
  have upos: "0 < ulp" by (simp add: ulp_def zero_less_power_int)
  note b = floor_log2_bounds [OF apos]
  from b assms have "(2::rat) powi 1024 < 2 powi (floor_log2 a + 1)" by (simp add: a_def)
  then have "1024 < floor_log2 a + 1" by (rule pow2_less_cancel)
  then have "1024 \<le> floor_log2 a" by simp
  then have e: "e = floor_log2 a" "1024 \<le> e" by (simp_all add: e_def)
  have u: "(2::rat) powi e = 2 ^ 52 * ulp"
  proof -
    have "e = 52 + (e - 52)" by simp
    then have "(2::rat) powi e = 2 powi (52 + (e - 52))" by (rule arg_cong)
    also have "\<dots> = 2 powi 52 * 2 powi (e - 52)" by (rule power_int_add) simp
    finally show ?thesis by (simp add: ulp_def)
  qed
  from b e have "2 ^ 52 * ulp \<le> a" using u by simp
  then have "of_int (2 ^ 52) \<le> a / ulp" using upos by (simp add: pos_le_divide_eq)
  then have "2 ^ 52 \<le> m" unfolding m_def by (rule round_half_even_mono_bounds(1))
  then have "(2::rat) ^ 52 \<le> of_int m" by (metis of_int_le_iff of_int_numeral of_int_power)
  then have "2 ^ 52 * ulp \<le> of_int m * ulp" using upos by (simp add: mult_right_mono)
  with u have "2 powi e \<le> of_int m * ulp" by simp
  moreover have "(2::rat) powi 1024 \<le> 2 powi e" by (rule power_int_increasing) (use e in auto)
  ultimately have "2 powi 1024 \<le> of_int m * ulp" by simp
  then show ?thesis
    using x by (simp add: round_to_double_def Let_def a_def [symmetric] e_def [symmetric]
        ulp_def [symmetric] m_def [symmetric])
qed

subsection \<open>Durations of the delay steps (C6)\<close>

lemma py_truediv_1000_near:
  assumes "py_truediv n 1000 = Inr d"
  shows "\<bar>d - of_int n / 1000\<bar> \<le> \<bar>of_int n / 1000\<bar> / 2 ^ 53"
proof (cases "n = 0")
  case True
  with assms show ?thesis by (simp add: py_truediv_def round_to_double_def)
next
  case False
  let ?x = "of_int n / 1000 :: rat"
  from False have x0: "?x \<noteq> 0" by simp
  from assms have r: "round_to_double ?x = Some d"
    by (simp add: py_truediv_def split: option.splits)
  from False have "1 \<le> \<bar>n\<bar>" by simp
  then have "(1 :: rat) \<le> of_int \<bar>n\<bar>" by linarith
  then have "(1 :: rat) / 1000 \<le> \<bar>?x\<bar>" by simp
  moreover have "(2 :: rat) powi (- 10) \<le> 1 / 1000" by (simp add: power_int_minus)
  ultimately have lo: "(2 :: rat) powi (- 10) \<le> \<bar>?x\<bar>" by linarith
  from x0 have "0 < \<bar>?x\<bar>" by simp
  from floor_log2_bounds [OF this] have "\<bar>?x\<bar> < 2 powi (floor_log2 \<bar>?x\<bar> + 1)" by simp
  with lo have "(2 :: rat) powi (- 10) < 2 powi (floor_log2 \<bar>?x\<bar> + 1)" by linarith
  then have "- 10 < floor_log2 \<bar>?x\<bar> + 1" by (rule pow2_less_cancel)
  then have "- 1022 \<le> floor_log2 \<bar>?x\<bar>" by simp
  from round_to_double_near [OF x0 this r] show ?thesis .
qed

lemma py_truediv_1000_finite:
  assumes "\<bar>of_int n / 1000 :: rat\<bar> < 2 powi 1023"
  shows "\<exists>d. py_truediv n 1000 = Inr d"
  using round_to_double_finite [OF assms] by (auto simp: py_truediv_def)

lemma py_truediv_1000_overflow:
  assumes "(2 :: rat) powi 1024 \<le> \<bar>of_int n / 1000\<bar>"
  shows "py_truediv n 1000 = Inl OverflowError"
  using round_to_double_overflow [OF assms] by (simp add: py_truediv_def)

text \<open>
  Claim C6 as stated (the duration of a \<^verbatim>\<open>DELAY_MS n\<close> step is \<open>n / 1000\<close> seconds)
  fails: the duration is the float \<^verbatim>\<open>args[0] / 1000\<close>. The script \<^verbatim>\<open>DELAY_MS 300\<close>
  compiles to one step, whose duration is the double
  \<open>5404319552844595 / 2^54 = 0.299999999999999988897769753748...\<close> and not \<open>3 / 10\<close>.
\<close>

theorem C6_delay_ms_counterexample:
  "map_sum id steps_to_execute (cmdscript_parse ''DELAY_MS 300'' initial_state)
     = Inr [\<lparr>cmd = ''DELAY_MS'', args = [I 300]\<rparr>]
   \<and> wait_t \<lparr>cmd = ''DELAY_MS'', args = [I 300]\<rparr> = Inr (5404319552844595 / 18014398509481984)
   \<and> wait_t \<lparr>cmd = ''DELAY_MS'', args = [I 300]\<rparr> \<noteq> Inr (3 / 10)"
proof -
  have a: "map_sum id steps_to_execute (cmdscript_parse ''DELAY_MS 300'' initial_state)
     = Inr [\<lparr>cmd = ''DELAY_MS'', args = [I 300]\<rparr>]"
    by code_simp
  have "py_truediv 300 1000 = Inr (5404319552844595 / 18014398509481984)" by code_simp
  then have b: "wait_t \<lparr>cmd = ''DELAY_MS'', args = [I 300]\<rparr>
      = Inr (5404319552844595 / 18014398509481984)"
    by (simp add: wait_t_def)
  have "(5404319552844595 / 18014398509481984 :: rat) \<noteq> 3 / 10" by simp
  with b have c: "wait_t \<lparr>cmd = ''DELAY_MS'', args = [I 300]\<rparr> \<noteq> Inr (3 / 10)" by simp
  from a b c show ?thesis by blast
qed

text \<open>
  Claim C6, amended. Whenever the Step Compiler comes to a \<^verbatim>\<open>DELAY\<close>, \<^verbatim>\<open>DELAY_MS\<close>
  or \<^verbatim>\<open>DELAY_H\<close> command whose first argument reads as the integer \<open>n\<close> for
  \<^verbatim>\<open>int()\<close>, it appends one step, the command with \<open>n\<close> for first argument, and goes
  on with the next command. The duration the executor waits for on that step
  (\<open>wait_t\<close>) is \<open>n\<close> seconds for \<^verbatim>\<open>DELAY\<close> and \<open>n * 3600\<close> seconds for \<^verbatim>\<open>DELAY_H\<close>,
  exactly. For \<^verbatim>\<open>DELAY_MS\<close> it is the float \<^verbatim>\<open>n / 1000\<close>: the double nearest to
  \<open>n / 1000\<close>, which is within \<open>\<bar>n / 1000\<bar> / 2^53\<close> of \<open>n / 1000\<close>; it exists when
  \<open>\<bar>n / 1000\<bar> < 2^1023\<close>, and from \<open>2^1024\<close> on the division raises
  \<^verbatim>\<open>OverflowError\<close> when the step is run.
\<close>

theorem C6_delay_duration:
  assumes "cmd c = ''DELAY'' \<or> cmd c = ''DELAY_MS'' \<or> cmd c = ''DELAY_H''"
    and "args c = S a # rest" and "py_int a = Some n"
  shows "\<exists>c'. step_cmd c w = Inr (Next, c', w\<lparr>steps_to_execute := steps_to_execute w @ [c']\<rparr>)
           \<and> step_pass seen (c # post) w
               = step_pass (seen @ [c']) post (w\<lparr>steps_to_execute := steps_to_execute w @ [c']\<rparr>)
           \<and> cmd c' = cmd c \<and> args c' = I n # rest
           \<and> (cmd c = ''DELAY'' \<longrightarrow> wait_t c' = Inr (of_int n))
           \<and> (cmd c = ''DELAY_H'' \<longrightarrow> wait_t c' = Inr (of_int n * 3600))
           \<and> (cmd c = ''DELAY_MS'' \<longrightarrow>
                wait_t c' = py_truediv n 1000
                \<and> (\<forall>d. wait_t c' = Inr d \<longrightarrow> \<bar>d - of_int n / 1000\<bar> \<le> \<bar>of_int n / 1000\<bar> / 2 ^ 53)
                \<and> (\<bar>of_int n / 1000 :: rat\<bar> < 2 powi 1023 \<longrightarrow> (\<exists>d. wait_t c' = Inr d))
                \<and> ((2 :: rat) powi 1024 \<le> \<bar>of_int n / 1000\<bar> \<longrightarrow> wait_t c' = Inl OverflowError))"
proof -
  let ?c = "c\<lparr>args := I n # rest\<rparr>"
  let ?w = "w\<lparr>steps_to_execute := steps_to_execute w @ [?c]\<rparr>"
  have d: "step_delay c w = Inr (Next, ?c, ?w)"
    using assms(2,3) by (simp add: step_delay_def Let_def)
  have s: "step_cmd c w = step_delay c w"
    using assms(1) by (auto simp: step_cmd_def)
  from d s have sc: "step_cmd c w = Inr (Next, ?c, ?w)" by simp
  then have sp: "step_pass seen (c # post) w = step_pass (seen @ [?c]) post ?w" by simp
  have f: "cmd ?c = cmd c" "args ?c = I n # rest" by simp_all
  have w1: "cmd c = ''DELAY'' \<longrightarrow> wait_t ?c = Inr (of_int n)"
    by (simp add: wait_t_def)
  have w2: "cmd c = ''DELAY_H'' \<longrightarrow> wait_t ?c = Inr (of_int n * 3600)"
    by (simp add: wait_t_def)
  have w3: "cmd c = ''DELAY_MS'' \<longrightarrow> wait_t ?c = py_truediv n 1000"
    by (simp add: wait_t_def)
  have w4: "cmd c = ''DELAY_MS'' \<longrightarrow>
      (\<forall>d. wait_t ?c = Inr d \<longrightarrow> \<bar>d - of_int n / 1000\<bar> \<le> \<bar>of_int n / 1000\<bar> / 2 ^ 53)"
    using w3 py_truediv_1000_near [of n] by simp
  have w5: "cmd c = ''DELAY_MS'' \<longrightarrow>
      (\<bar>of_int n / 1000 :: rat\<bar> < 2 powi 1023 \<longrightarrow> (\<exists>d. wait_t ?c = Inr d))"
    using w3 py_truediv_1000_finite [of n] by simp
  have w6: "cmd c = ''DELAY_MS'' \<longrightarrow>
      ((2 :: rat) powi 1024 \<le> \<bar>of_int n / 1000\<bar> \<longrightarrow> wait_t ?c = Inl OverflowError)"
    using w3 py_truediv_1000_overflow [of n] by simp
  from sc sp f w1 w2 w3 w4 w5 w6 show ?thesis by blast
qed

theorem C6_delay_duration_witness:
  "(\<exists>c'. step_cmd \<lparr>cmd = ''DELAY_MS'', args = [S ''500'']\<rparr> initial_state
           = Inr (Next, c', initial_state\<lparr>steps_to_execute := [c']\<rparr>) \<and> wait_t c' = Inr (1 / 2))
   \<and> (\<exists>c'. step_cmd \<lparr>cmd = ''DELAY_H'', args = [S ''1'']\<rparr> initial_state
           = Inr (Next, c', initial_state\<lparr>steps_to_execute := [c']\<rparr>) \<and> wait_t c' = Inr 3600)
   \<and> (\<exists>c'. step_cmd \<lparr>cmd = ''DELAY'', args = [S ''7'']\<rparr> initial_state
           = Inr (Next, c', initial_state\<lparr>steps_to_execute := [c']\<rparr>) \<and> wait_t c' = Inr 7)
   \<and> (\<exists>c'. step_cmd \<lparr>cmd = ''DELAY_MS'', args = [S (''1'' @ replicate 400 CHR ''0'')]\<rparr> initial_state
           = Inr (Next, c', initial_state\<lparr>steps_to_execute := [c']\<rparr>)
           \<and> wait_t c' = Inl OverflowError)"
proof -
  have p1: "py_int ''500'' = Some 500" by code_simp
  have p2: "py_int ''1'' = Some 1" by code_simp
  have p3: "py_int ''7'' = Some 7" by code_simp
  have p4: "py_int (''1'' @ replicate 400 CHR ''0'') = Some (10 ^ 400)" by code_simp
  have h: "py_truediv 500 1000 = Inr (1 / 2)" by code_simp
  have "(2 :: rat) powi 1024 = 2 ^ 1024" by simp
  also have "\<dots> \<le> 10 ^ 397" by simp
  also have "\<dots> = \<bar>of_int (10 ^ 400) / 1000\<bar>" by simp
  finally have big: "(2 :: rat) powi 1024 \<le> \<bar>of_int (10 ^ 400) / 1000\<bar>" .
  have e: "steps_to_execute initial_state = []" by (simp add: initial_state_def)
  have a: "\<exists>c'. step_cmd \<lparr>cmd = ''DELAY_MS'', args = [S ''500'']\<rparr> initial_state
           = Inr (Next, c', initial_state\<lparr>steps_to_execute := [c']\<rparr>) \<and> wait_t c' = Inr (1 / 2)"
    using C6_delay_duration [of "\<lparr>cmd = ''DELAY_MS'', args = [S ''500'']\<rparr>" "''500''" "[]" 500
        initial_state "[]" "[]"] p1 e h
    by simp blast
  have b: "\<exists>c'. step_cmd \<lparr>cmd = ''DELAY_H'', args = [S ''1'']\<rparr> initial_state
           = Inr (Next, c', initial_state\<lparr>steps_to_execute := [c']\<rparr>) \<and> wait_t c' = Inr 3600"
    using C6_delay_duration [of "\<lparr>cmd = ''DELAY_H'', args = [S ''1'']\<rparr>" "''1''" "[]" 1
        initial_state "[]" "[]"] p2 e
    by simp blast
  have c: "\<exists>c'. step_cmd \<lparr>cmd = ''DELAY'', args = [S ''7'']\<rparr> initial_state
           = Inr (Next, c', initial_state\<lparr>steps_to_execute := [c']\<rparr>) \<and> wait_t c' = Inr 7"
    using C6_delay_duration [of "\<lparr>cmd = ''DELAY'', args = [S ''7'']\<rparr>" "''7''" "[]" 7
        initial_state "[]" "[]"] p3 e
    by simp blast
  from C6_delay_duration [of "\<lparr>cmd = ''DELAY_MS'', args = [S (''1'' @ replicate 400 CHR ''0'')]\<rparr>"
        "''1'' @ replicate 400 CHR ''0''" "[]" "10 ^ 400" initial_state "[]" "[]"] p4
  obtain c' where o: "step_cmd \<lparr>cmd = ''DELAY_MS'', args = [S (''1'' @ replicate 400 CHR ''0'')]\<rparr>
        initial_state = Inr (Next, c', initial_state\<lparr>steps_to_execute := steps_to_execute initial_state @ [c']\<rparr>)"
      "(2 :: rat) powi 1024 \<le> \<bar>of_int (10 ^ 400) / 1000\<bar> \<longrightarrow> wait_t c' = Inl OverflowError"
    by auto
  from o(2) big have "wait_t c' = Inl OverflowError" by blast
  with o(1) e have d: "\<exists>c'. step_cmd \<lparr>cmd = ''DELAY_MS'', args = [S (''1'' @ replicate 400 CHR ''0'')]\<rparr> initial_state
           = Inr (Next, c', initial_state\<lparr>steps_to_execute := [c']\<rparr>)
           \<and> wait_t c' = Inl OverflowError"
    by auto
  from a b c d show ?thesis by blast
qed

subsection \<open>The interval of a periodic publish (C7)\<close>

text \<open>
  Claim C7 as stated (every entry appended by \<^verbatim>\<open>CFG_PUB_EACH\<close> has a positive
  interval) fails: the code tests that the interval is an integer and nothing more. The
  line \<^verbatim>\<open>CFG_PUB_EACH -5 0 t "m"\<close> yields an entry of interval \<open>-5\<close>.
\<close>

theorem C7_negative_interval_counterexample:
  "map_sum id pub_each
       (cmdscript_parse (''CFG_PUB_EACH -5 0 t '' @ [DQUOTE] @ ''m'' @ [DQUOTE, LF]) initial_state)
     = Inr [\<lparr>each = - 5, qos = 0, topic = S ''t'', msg = ''m'', time_last_pub = Some 0\<rparr>]"
  by code_simp

text \<open>
  Claim C7, amended. A \<^verbatim>\<open>CFG_PUB_EACH\<close> command with at least four arguments, whose
  first two arguments read as the integers \<open>n\<close> and \<open>q\<close> for \<^verbatim>\<open>int()\<close> and whose
  arguments from the fourth on, joined by single spaces, are a quoted message, appends
  exactly one entry to the list of periodic publishes, of interval \<open>n\<close> whatever the sign
  of \<open>n\<close>, and changes nothing else. Conversely a command of the Configuration Builder
  pass either leaves the list of periodic publishes as it is, or it is a
  \<^verbatim>\<open>CFG_PUB_EACH\<close> command and appends exactly one entry, whose interval is the integer
  its first argument denotes for \<^verbatim>\<open>int()\<close>.
\<close>

theorem C7_interval_is_first_argument:
  "(cmd c = ''CFG_PUB_EACH'' \<and> 4 \<le> length (args c) \<and>
      args c ! 0 = S a \<and> py_int a = Some n \<and> args c ! 1 = S b \<and> py_int b = Some q \<and>
      join_args (drop 3 (args c)) = Inr m \<and> \<not> not_quoted m
    \<longrightarrow> config_cmd c w =
          Inr (w\<lparr>pub_each := pub_each w @
                 [\<lparr>each = n, qos = q, topic = args c ! 2, msg = slice_1_m1 m,
                   time_last_pub = Some 0\<rparr>]\<rparr>))
   \<and> (config_cmd c w = Inr w'
    \<longrightarrow> pub_each w' = pub_each w
       \<or> (cmd c = ''CFG_PUB_EACH'' \<and>
          (\<exists>a n entry. args c ! 0 = S a \<and> py_int a = Some n \<and>
             pub_each w' = pub_each w @ [entry] \<and> each entry = n)))"
proof (intro conjI impI)
  assume h: "cmd c = ''CFG_PUB_EACH'' \<and> 4 \<le> length (args c) \<and>
      args c ! 0 = S a \<and> py_int a = Some n \<and> args c ! 1 = S b \<and> py_int b = Some q \<and>
      join_args (drop 3 (args c)) = Inr m \<and> \<not> not_quoted m"
  then have "config_cmd c w = cfg_pub_each c w" by (simp add: config_cmd_def)
  also from h have "\<dots> = Inr (w\<lparr>pub_each := pub_each w @
                 [\<lparr>each = n, qos = q, topic = args c ! 2, msg = slice_1_m1 m,
                   time_last_pub = Some 0\<rparr>]\<rparr>)"
    by (simp add: cfg_pub_each_def)
  finally show "config_cmd c w =
          Inr (w\<lparr>pub_each := pub_each w @
                 [\<lparr>each = n, qos = q, topic = args c ! 2, msg = slice_1_m1 m,
                   time_last_pub = Some 0\<rparr>]\<rparr>)" .
next
  assume "config_cmd c w = Inr w'"
  from config_cmd_cases [OF this]
  show "pub_each w' = pub_each w
       \<or> (cmd c = ''CFG_PUB_EACH'' \<and>
          (\<exists>a n entry. args c ! 0 = S a \<and> py_int a = Some n \<and>
             pub_each w' = pub_each w @ [entry] \<and> each entry = n))"
    by (auto simp: rejected_def)
qed

theorem C7_interval_is_first_argument_witness:
  "config_cmd \<lparr>cmd = ''CFG_PUB_EACH'', args = [S ''0'', S ''1'', S ''t'', S [DQUOTE, CHR ''m'', DQUOTE]]\<rparr>
      initial_state
     = Inr (initial_state\<lparr>pub_each := [\<lparr>each = 0, qos = 1, topic = S ''t'', msg = ''m'',
                                           time_last_pub = Some 0\<rparr>]\<rparr>)
   \<and> config_cmd \<lparr>cmd = ''CFG_PUB_EACH'', args = [S ''-12'', S ''0'', S ''t'', S [DQUOTE, CHR ''m'', DQUOTE]]\<rparr>
      initial_state
     = Inr (initial_state\<lparr>pub_each := [\<lparr>each = - 12, qos = 0, topic = S ''t'', msg = ''m'',
                                           time_last_pub = Some 0\<rparr>]\<rparr>)
   \<and> (\<exists>a. S ''-12'' = S a \<and> py_int a = Some (- 12))"
proof -
  let ?m = "[DQUOTE, CHR ''m'', DQUOTE]"
  let ?c = "\<lparr>cmd = ''CFG_PUB_EACH'', args = [S ''0'', S ''1'', S ''t'', S ?m]\<rparr>"
  let ?d = "\<lparr>cmd = ''CFG_PUB_EACH'', args = [S ''-12'', S ''0'', S ''t'', S ?m]\<rparr>"
  let ?v = "initial_state\<lparr>pub_each := [\<lparr>each = - 12, qos = 0, topic = S ''t'', msg = ''m'',
                                           time_last_pub = Some 0\<rparr>]\<rparr>"
  have p: "py_int ''0'' = Some 0" "py_int ''1'' = Some 1" "py_int ''-12'' = Some (- 12)"
    by code_simp+
  have q: "\<not> not_quoted ?m" "slice_1_m1 ?m = ''m''" by code_simp+
  have j: "join_args [S ?m] = Inr ?m" by (simp add: join_args_def)
  have e: "pub_each initial_state = []" by (simp add: initial_state_def)
  have x: "config_cmd ?c initial_state
     = Inr (initial_state\<lparr>pub_each := [\<lparr>each = 0, qos = 1, topic = S ''t'', msg = ''m'',
                                           time_last_pub = Some 0\<rparr>]\<rparr>)"
    using C7_interval_is_first_argument [of ?c "''0''" 0 "''1''" 1 ?m initial_state initial_state]
      p q j e by simp
  have y: "config_cmd ?d initial_state = Inr ?v"
    using C7_interval_is_first_argument [of ?d "''-12''" "- 12" "''0''" 0 ?m initial_state initial_state]
      p q j e by simp
  have n: "pub_each ?v \<noteq> pub_each initial_state" by (simp add: initial_state_def)
  from C7_interval_is_first_argument [of ?d "''-12''" "- 12" "''0''" 0 ?m initial_state ?v] y n
  have "\<exists>a n entry. args ?d ! 0 = S a \<and> py_int a = Some n \<and>
             pub_each ?v = pub_each initial_state @ [entry] \<and> each entry = n" by blast
  then have "\<exists>a. S ''-12'' = S a \<and> py_int a = Some (- 12)"
    by (auto simp: initial_state_def)
  with x y show ?thesis by simp
qed

subsection \<open>An empty script file (C10)\<close>

text \<open>
  Claim C10: when the script file reads back as the empty string (the file is missing,
  cannot be read, or exists and has no content), \<^verbatim>\<open>main\<close> returns \<^verbatim>\<open>RC.FAIL\<close>, which
  is \<open>-1\<close>, before the parser runs: the command, subscription, periodic-publish and step
  lists and the invalid flag are untouched, and for the empty readable file nothing at all
  is logged or changed. The three cases give the same return code.
\<close>

theorem C10_empty_script_returns_fail:
  assumes "argc \<noteq> 0"
    and "files path = Some (Readable []) \<or> files path = Some Unreadable \<or> files path = None"
  shows "\<exists>w'. main clock uuid envs files argc (Some path) w = Inr (Some RC_FAIL, w') \<and>
           RC_FAIL = - 1 \<and> commands w' = commands w \<and> subscriptions w' = subscriptions w \<and>
           pub_each w' = pub_each w \<and> steps_to_execute w' = steps_to_execute w \<and>
           invalid w' = invalid w \<and> (if files path = Some (Readable []) then w' = w else True)"
proof -
  obtain t w1 where r: "file_read_all_text files path w = (t, w1)"
    by (cases "file_read_all_text files path w")
  from assms(2) r have t: "t = []"
    by (auto simp: file_read_all_text_def)
  from assms(2) r have f: "commands w1 = commands w \<and> subscriptions w1 = subscriptions w \<and>
      pub_each w1 = pub_each w \<and> steps_to_execute w1 = steps_to_execute w \<and> invalid w1 = invalid w \<and>
      (if files path = Some (Readable []) then w1 = w else True)"
    by (auto simp: file_read_all_text_def)
  have "main clock uuid envs files argc (Some path) w = Inr (Some RC_FAIL, w1)"
    using assms(1) r t by (simp add: main_def)
  with f show ?thesis by (simp add: RC_FAIL_def)
qed

theorem C10_empty_script_returns_fail_witness:
  "main (\<lambda>k. 0) [] [] (\<lambda>p. if p = ''empty.cmds'' then Some (Readable []) else None)
        2 (Some ''empty.cmds'') initial_state = Inr (Some (- 1), initial_state)
   \<and> fst (file_read_all_text (\<lambda>p. if p = ''empty.cmds'' then Some (Readable []) else None)
            ''empty.cmds'' initial_state) = []"
proof -
  let ?files = "\<lambda>p. if p = ''empty.cmds'' then Some (Readable []) else None"
  have n: "(2::nat) \<noteq> 0" by simp
  have e: "?files ''empty.cmds'' = Some (Readable []) \<or> ?files ''empty.cmds'' = Some Unreadable
             \<or> ?files ''empty.cmds'' = None" by simp
  from C10_empty_script_returns_fail [where argc = 2 and files = ?files and path = "''empty.cmds''"
        and clock = "\<lambda>k. 0" and uuid = "[]" and envs = "[]" and w = initial_state] n e
  show ?thesis by (auto simp: RC_FAIL_def file_read_all_text_def)
qed

subsection \<open>The arguments of a command (C8)\<close>

lemma split_on_not_Nil: "split_on sep s \<noteq> []"
  by (induction s) (auto split: list.splits)

lemma join_space_Cons: "join_space ((c # x) # xs) = c # join_space (x # xs)"
  by (cases xs) auto

lemma join_space_split_on: "join_space (split_on SPACE s) = s"
proof (induction s)
  case Nil
  show ?case by simp
next
  case (Cons c cs)
  obtain x xs where x: "split_on SPACE cs = x # xs"
    using split_on_not_Nil [of SPACE cs] by (cases "split_on SPACE cs") auto
  with Cons show ?case by (simp add: join_space_Cons)
qed

lemma split_on_no_sep: "list_all (\<lambda>x. sep \<notin> set x) (split_on sep s)"
  by (induction s) (auto split: list.splits)

text \<open>
  Claim C8 as stated (the arguments are the tokens between runs of white space, none of
  them empty) fails: the line is cut with \<^verbatim>\<open>split(" ")\<close>, at every single space. In
  the script \<^verbatim>\<open>DELAY  5\<close> (two spaces, ended by a newline) the line is kept, its first
  argument is the empty string, and the command is rejected for it.
\<close>

theorem C8_empty_argument_counterexample:
  "map_sum id commands (cmdscript_parse (''DELAY  5'' @ [LF]) initial_state)
     = Inr [\<lparr>cmd = ''DELAY'', args = [S [], S ''5'']\<rparr>, \<lparr>cmd = [], args = []\<rparr>]
   \<and> map_sum id invalid (cmdscript_parse (''DELAY  5'' @ [LF]) initial_state) = Inr True"
  by code_simp

lemma length_split_on: "length (split_on sep s) = Suc (count_list s sep)"
proof (induction s)
  case Nil
  show ?case by simp
next
  case (Cons c cs)
  obtain x xs where x: "split_on sep cs = x # xs"
    using split_on_not_Nil [of sep cs] by (cases "split_on sep cs") auto
  with Cons show ?case by auto
qed

lemma split_on_hd_empty:
  "split_on sep (d # ds) = x # xs \<Longrightarrow> d \<noteq> sep \<Longrightarrow> x \<noteq> []"
  by (cases "split_on sep ds") auto

lemma nonempty_pieces_are_tokens:
  "spaces_only s \<Longrightarrow> filter (\<lambda>x. x \<noteq> []) (split_on SPACE s) = py_split s"
proof (induction s)
  case Nil
  show ?case by simp
next
  case (Cons c cs)
  obtain x xs where x: "split_on SPACE cs = x # xs"
    using split_on_not_Nil [of SPACE cs] by (cases "split_on SPACE cs") auto
  from Cons.prems have so: "spaces_only cs" and c: "py_isspace c \<Longrightarrow> c = SPACE"
    by (auto simp: spaces_only_def split: if_splits)
  have sp: "py_isspace SPACE" by (simp add: py_isspace_def SPACE_def)
  show ?case
  proof (cases "py_isspace c")
    case True
    with c have "c = SPACE" by simp
    with True Cons.IH [OF so] show ?thesis by simp
  next
    case False
    with sp have ne: "c \<noteq> SPACE" by auto
    show ?thesis
    proof (cases cs)
      case Nil
      with False ne show ?thesis by simp
    next
      case c2: (Cons d ds)
      note ih = Cons.IH [OF so]
      show ?thesis
      proof (cases "py_isspace d")
        case True
        with so c2 have d: "d = SPACE" by (simp add: spaces_only_def)
        from d c2 have "split_on SPACE cs = [] # split_on SPACE ds" by simp
        with x have xe: "x = []" by simp
        from False c2 True have "py_split (c # cs) = [c] # py_split cs" by simp
        moreover from ne x xe have "filter (\<lambda>x. x \<noteq> []) (split_on SPACE (c # cs)) = [c] # filter (\<lambda>x. x \<noteq> []) xs"
          by simp
        moreover from x xe ih have "filter (\<lambda>x. x \<noteq> []) xs = py_split cs" by simp
        ultimately show ?thesis by simp
      next
        case nsd: False
        with sp have dne: "d \<noteq> SPACE" by auto
        from x c2 dne have xne: "x \<noteq> []" using split_on_hd_empty [of SPACE d ds x xs] by simp
        with x ih have p: "py_split cs = x # filter (\<lambda>x. x \<noteq> []) xs" by simp
        from False c2 nsd p have "py_split (c # cs) = (c # x) # filter (\<lambda>x. x \<noteq> []) xs" by simp
        moreover from ne x have "filter (\<lambda>x. x \<noteq> []) (split_on SPACE (c # cs)) = (c # x) # filter (\<lambda>x. x \<noteq> []) xs"
          by simp
        ultimately show ?thesis by simp
      qed
    qed
  qed
qed

text \<open>
  Claim C8, amended. For a line in which the space character is the only white space, the
  keyword and the arguments of the command made from the line are the pieces of the line
  between its space characters, in order: the keyword is the first piece in upper case and
  the arguments are the other pieces as they are; no piece holds a space; there is one
  piece more than the line has spaces; the pieces joined by single spaces give the line
  back; and the pieces that are not empty are, in order, the tokens between the runs of
  white space of the line.
\<close>

theorem C8_args_cut_at_single_spaces:
  assumes "spaces_only line"
  shows "\<exists>w strs. split_on SPACE line = w # strs \<and>
     cmd (command_of_line line) = upper w \<and>
     args (command_of_line line) = map S strs \<and>
     join_space (w # strs) = line \<and>
     list_all (\<lambda>s. SPACE \<notin> set s) (w # strs) \<and>
     length (w # strs) = Suc (count_list line SPACE) \<and>
     filter (\<lambda>s. s \<noteq> []) (w # strs) = py_split line"
proof -
  obtain w strs where s: "split_on SPACE line = w # strs"
    using split_on_not_Nil [of SPACE line] by (cases "split_on SPACE line") auto
  have j: "join_space (w # strs) = line"
    using join_space_split_on [of line] s by simp
  have n: "list_all (\<lambda>s. SPACE \<notin> set s) (w # strs)"
    using split_on_no_sep [of SPACE line] s by simp
  have c: "cmd (command_of_line line) = upper w \<and> args (command_of_line line) = map S strs"
    using s by (simp add: command_of_line_def)
  have l: "length (w # strs) = Suc (count_list line SPACE)"
    using length_split_on [of SPACE line] s by simp
  have f: "filter (\<lambda>s. s \<noteq> []) (w # strs) = py_split line"
    using nonempty_pieces_are_tokens [OF assms] s by simp
  from s j n c l f show ?thesis by blast
qed

theorem C8_args_cut_at_single_spaces_witness:
  "spaces_only (''PUB 0 d '' @ [DQUOTE] @ ''a  b'' @ [DQUOTE] @ '' '')
   \<and> cmd (command_of_line (''PUB 0 d '' @ [DQUOTE] @ ''a  b'' @ [DQUOTE] @ '' '')) = ''PUB''
   \<and> args (command_of_line (''PUB 0 d '' @ [DQUOTE] @ ''a  b'' @ [DQUOTE] @ '' ''))
       = [S ''0'', S ''d'', S (DQUOTE # ''a''), S [], S (''b'' @ [DQUOTE]), S []]
   \<and> py_split (''PUB 0 d '' @ [DQUOTE] @ ''a  b'' @ [DQUOTE] @ '' '')
       = [''PUB'', ''0'', ''d'', DQUOTE # ''a'', ''b'' @ [DQUOTE]]"
proof -
  let ?l = "''PUB 0 d '' @ [DQUOTE] @ ''a  b'' @ [DQUOTE] @ '' ''"
  have h: "spaces_only ?l" by code_simp
  have s: "split_on SPACE ?l = [''PUB'', ''0'', ''d'', DQUOTE # ''a'', [], ''b'' @ [DQUOTE], []]"
    by code_simp
  have u: "upper ''PUB'' = ''PUB''" by code_simp
  from C8_args_cut_at_single_spaces [OF h] obtain w strs where
    t: "split_on SPACE ?l = w # strs" "cmd (command_of_line ?l) = upper w"
      "args (command_of_line ?l) = map S strs"
      "filter (\<lambda>s. s \<noteq> []) (w # strs) = py_split ?l"
    by blast
  from t(1) have w: "w = ''PUB''"
      "strs = [''0'', ''d'', DQUOTE # ''a'', [], ''b'' @ [DQUOTE], []]"
    unfolding s by simp_all
  from t(2) u have c: "cmd (command_of_line ?l) = ''PUB''" unfolding w by (rule trans)
  have "map S strs = [S ''0'', S ''d'', S (DQUOTE # ''a''), S [], S (''b'' @ [DQUOTE]), S []]"
    unfolding w by simp
  with t(3) have a: "args (command_of_line ?l)
       = [S ''0'', S ''d'', S (DQUOTE # ''a''), S [], S (''b'' @ [DQUOTE]), S []]"
    by (rule trans)
  have "filter (\<lambda>s. s \<noteq> []) (w # strs) = [''PUB'', ''0'', ''d'', DQUOTE # ''a'', ''b'' @ [DQUOTE]]"
    unfolding w by simp
  with t(4) [symmetric] have p: "py_split ?l = [''PUB'', ''0'', ''d'', DQUOTE # ''a'', ''b'' @ [DQUOTE]]"
    by (rule trans)
  from h c a p show ?thesis by blast
qed

subsection \<open>The step index of the interpreter (C9)\<close>

lemma publish_each_entry_frame:
  "publish_each_entry clock p w = Inr (p', w') \<Longrightarrow>
     steps_to_execute w' = steps_to_execute w \<and> app_exit w' = app_exit w"
  by (auto simp: publish_each_entry_def time_def Let_def split: option.splits if_splits)

lemma publish_each_loop_frame:
  "publish_each_loop clock seen ps w = Inr w' \<Longrightarrow>
     steps_to_execute w' = steps_to_execute w \<and> app_exit w' = app_exit w"
proof (induction ps arbitrary: seen w)
  case Nil
  then show ?case by auto
next
  case (Cons p ps)
  from Cons.prems obtain p' w1 where e: "publish_each_entry clock p w = Inr (p', w1)"
    and l: "publish_each_loop clock (seen @ [p']) ps w1 = Inr w'"
    by (auto split: sum.splits)
  from Cons.IH [OF l] publish_each_entry_frame [OF e] show ?case by simp
qed

lemma run_delay_frame:
  "run_delay clock c w = Inr (b, w') \<Longrightarrow> steps_to_execute w' = steps_to_execute w"
  by (auto simp: run_delay_def time_def Let_def split: sum.splits option.splits if_splits)

lemma run_step_cmd_frame:
  "run_step_cmd clock c w = Inr (b, w') \<Longrightarrow> steps_to_execute w' = steps_to_execute w"
  by (auto simp: run_step_cmd_def dest: run_delay_frame split: if_splits)

lemma run_step_cmd_disconnect:
  "cmd c = ''DISCONNECT'' \<Longrightarrow> run_step_cmd clock c w = Inr (b, w') \<Longrightarrow> b \<and> app_exit w'"
  by (auto simp: run_step_cmd_def)

lemma tick_step:
  assumes "tick clock env step w = Inr (step', w')"
  shows "steps_to_execute w' = steps_to_execute w"
    and "step' = step \<or> step' = step + 1"
    and "step' = step + 1 \<Longrightarrow> step < length (steps_to_execute w)"
    and "step' = step + 1 \<Longrightarrow> cmd (steps_to_execute w ! step) = ''DISCONNECT'' \<Longrightarrow> app_exit w'"
proof -
  show "steps_to_execute w' = steps_to_execute w"
    using assms
    by (auto simp: tick_def manage_publish_each_time_def split: if_splits sum.splits
        dest!: publish_each_loop_frame run_step_cmd_frame)
  show "step' = step \<or> step' = step + 1"
    using assms by (auto simp: tick_def split: if_splits sum.splits)
  show "step' = step + 1 \<Longrightarrow> step < length (steps_to_execute w)"
    using assms
    by (auto simp: tick_def manage_publish_each_time_def split: if_splits sum.splits
        dest!: publish_each_loop_frame)
  show "step' = step + 1 \<Longrightarrow> cmd (steps_to_execute w ! step) = ''DISCONNECT'' \<Longrightarrow> app_exit w'"
    using assms
    by (auto simp: tick_def manage_publish_each_time_def split: if_splits sum.splits
        dest!: publish_each_loop_frame dest: run_step_cmd_disconnect)
qed

lemma observe_fields [simp]:
  "steps_to_execute (observe env w) = steps_to_execute w"
  "app_exit w \<Longrightarrow> app_exit (observe env w)"
  by (simp_all add: observe_def)

lemma interpreter_loop_steps:
  "interpreter_loop clock envs step w = Inr (step', w') \<Longrightarrow>
     steps_to_execute w' = steps_to_execute w \<and> step \<le> step' \<and>
     (step \<le> length (steps_to_execute w) \<longrightarrow> step' \<le> length (steps_to_execute w)) \<and>
     (length (steps_to_execute w) \<le> step \<longrightarrow> step' = step) \<and>
     (app_exit w \<longrightarrow> step' = step)"
proof (induction envs arbitrary: step w)
  case Nil
  then show ?case by simp
next
  case (Cons env envs)
  show ?case
  proof (cases "app_exit (observe env w)")
    case True
    with Cons.prems show ?thesis by auto
  next
    case False
    with Cons.prems obtain s1 w1 where t: "tick clock env step (observe env w) = Inr (s1, w1)"
      and l: "interpreter_loop clock envs s1 w1 = Inr (step', w')"
      by (auto simp: Let_def split: sum.splits)
    from False have na: "\<not> app_exit w" by auto
    note ts = tick_step [OF t]
    from Cons.IH [OF l] ts(1,2,3) na show ?thesis by auto
  qed
qed

text \<open>
  Claim C9: in one pass of the interpreter loop the step index stays or grows by one, and
  grows only while it is below the length of the step list, so it never passes that length
  and no longer moves once it has reached it; when the pass completes a \<^verbatim>\<open>DISCONNECT\<close>
  step, \<^verbatim>\<open>app_exit\<close> is set. Over any number of passes of a run the index does not
  decrease, stays within the length of the step list, stays put once it equals that
  length, and stays put once \<^verbatim>\<open>app_exit\<close> is set. The step list itself is not changed.
\<close>

theorem C9_step_index_monotone:
  "(tick clock env step w = Inr (step', w') \<longrightarrow>
      steps_to_execute w' = steps_to_execute w \<and>
      (step' = step \<or> step' = step + 1) \<and>
      (step \<le> length (steps_to_execute w) \<longrightarrow> step' \<le> length (steps_to_execute w)) \<and>
      (length (steps_to_execute w) \<le> step \<longrightarrow> step' = step) \<and>
      (step' = step + 1 \<and> cmd (steps_to_execute w ! step) = ''DISCONNECT'' \<longrightarrow> app_exit w'))
   \<and> (interpreter_loop clock envs step w = Inr (step', w') \<longrightarrow>
      steps_to_execute w' = steps_to_execute w \<and> step \<le> step' \<and>
      (step \<le> length (steps_to_execute w) \<longrightarrow> step' \<le> length (steps_to_execute w)) \<and>
      (length (steps_to_execute w) \<le> step \<longrightarrow> step' = step) \<and>
      (app_exit w \<longrightarrow> step' = step))"
proof (intro conjI impI)
  assume t: "tick clock env step w = Inr (step', w')"
  note ts = tick_step [OF t]
  show "steps_to_execute w' = steps_to_execute w" by (rule ts(1))
  show "step' = step \<or> step' = step + 1" by (rule ts(2))
  show "step' \<le> length (steps_to_execute w)" if "step \<le> length (steps_to_execute w)"
    using ts(2,3) that by auto
  show "step' = step" if "length (steps_to_execute w) \<le> step"
    using ts(2,3) that by auto
  show "app_exit w'" if "step' = step + 1 \<and> cmd (steps_to_execute w ! step) = ''DISCONNECT''"
    using ts(4) that by auto
next
  assume l: "interpreter_loop clock envs step w = Inr (step', w')"
  note ls = interpreter_loop_steps [OF l]
  show "steps_to_execute w' = steps_to_execute w" using ls by simp
  show "step \<le> step'" using ls by simp
  show "step' \<le> length (steps_to_execute w)" if "step \<le> length (steps_to_execute w)"
    using ls that by simp
  show "step' = step" if "length (steps_to_execute w) \<le> step"
    using ls that by simp
  show "step' = step" if "app_exit w"
    using ls that by simp
qed

theorem C9_step_index_monotone_witness:
  "interpreter_loop (\<lambda>k. 0)
     [\<lparr>is_connected = False, signal_received = False, connected_at = None\<rparr>,
      \<lparr>is_connected = True, signal_received = False, connected_at = Some 0\<rparr>,
      \<lparr>is_connected = True, signal_received = False, connected_at = None\<rparr>,
      \<lparr>is_connected = True, signal_received = False, connected_at = None\<rparr>] 0
     (initial_state\<lparr>steps_to_execute :=
        [\<lparr>cmd = ''PUB'', args = [I 0, S ''t'', S ''m'']\<rparr>, \<lparr>cmd = ''DISCONNECT'', args = []\<rparr>]\<rparr>)
   = Inr (2, initial_state\<lparr>steps_to_execute :=
        [\<lparr>cmd = ''PUB'', args = [I 0, S ''t'', S ''m'']\<rparr>, \<lparr>cmd = ''DISCONNECT'', args = []\<rparr>],
        app_exit := True, time_mqtt_connected := Some 0,
        events := [Info ''Publish msg'', Mqtt_publish (S ''t'') (S ''m'') (I 0),
                   Info ''Disconnect'', Mqtt_disconnect]\<rparr>)
   \<and> (0::nat) \<le> 2
   \<and> (2::nat) \<le> length (steps_to_execute (initial_state\<lparr>steps_to_execute :=
        [\<lparr>cmd = ''PUB'', args = [I 0, S ''t'', S ''m'']\<rparr>, \<lparr>cmd = ''DISCONNECT'', args = []\<rparr>]\<rparr>))"
proof -
  let ?clock = "\<lambda>k::nat. 0::rat"
  let ?off = "\<lparr>is_connected = False, signal_received = False, connected_at = None\<rparr>"
  let ?conn = "\<lparr>is_connected = True, signal_received = False, connected_at = Some 0\<rparr>"
  let ?up = "\<lparr>is_connected = True, signal_received = False, connected_at = None\<rparr>"
  let ?w = "initial_state\<lparr>steps_to_execute :=
        [\<lparr>cmd = ''PUB'', args = [I 0, S ''t'', S ''m'']\<rparr>, \<lparr>cmd = ''DISCONNECT'', args = []\<rparr>]\<rparr>"
  let ?w' = "initial_state\<lparr>steps_to_execute :=
        [\<lparr>cmd = ''PUB'', args = [I 0, S ''t'', S ''m'']\<rparr>, \<lparr>cmd = ''DISCONNECT'', args = []\<rparr>],
        app_exit := True, time_mqtt_connected := Some 0,
        events := [Info ''Publish msg'', Mqtt_publish (S ''t'') (S ''m'') (I 0),
                   Info ''Disconnect'', Mqtt_disconnect]\<rparr>"
  have run: "interpreter_loop ?clock [?off, ?conn, ?up, ?up] 0 ?w = Inr (2, ?w')"
    by (simp add: observe_def tick_def manage_publish_each_time_def run_step_cmd_def logger_def
        initial_state_def Let_def)
  have start: "(0::nat) \<le> length (steps_to_execute ?w)"
    by simp
  from C9_step_index_monotone [of ?clock ?up 0 ?w 2 ?w' "[?off, ?conn, ?up, ?up]"] run start
  have "(0::nat) \<le> 2 \<and> (2::nat) \<le> length (steps_to_execute ?w)"
    by blast
  with run show ?thesis by simp
qed

subsection \<open>Errors in the two passes (C4)\<close>

lemma config_cmd_rejects:
  "config_cmd c w = Inr w' \<Longrightarrow> events w' \<noteq> events w \<Longrightarrow> rejected c w w'"
  using config_cmd_cases [of c w w'] by (auto simp: settings_only_def)

lemma config_cmd_mono:
  "config_cmd c w = Inr w' \<Longrightarrow>
     (invalid w \<longrightarrow> invalid w') \<and> (\<exists>es. events w' = events w @ es) \<and>
     commands w' = commands w \<and> steps_to_execute w' = steps_to_execute w \<and>
     (\<exists>ss. subscriptions w' = subscriptions w @ ss) \<and> (\<exists>ps. pub_each w' = pub_each w @ ps)"
  using config_cmd_cases [of c w w'] by (auto simp: rejected_def settings_only_def)

lemma config_pass_mono:
  "config_pass cs w = Inr w' \<Longrightarrow>
     (invalid w \<longrightarrow> invalid w') \<and> (\<exists>es. events w' = events w @ es) \<and>
     commands w' = commands w \<and> steps_to_execute w' = steps_to_execute w \<and>
     (\<exists>ss. subscriptions w' = subscriptions w @ ss) \<and> (\<exists>ps. pub_each w' = pub_each w @ ps)"
proof (induction cs arbitrary: w)
  case Nil
  then show ?case by simp
next
  case (Cons c cs)
  from Cons.prems obtain w1 where c: "config_cmd c w = Inr w1" and r: "config_pass cs w1 = Inr w'"
    by (auto split: sum.splits)
  from config_cmd_mono [OF c] obtain es1 ss1 ps1 where
    a: "invalid w \<longrightarrow> invalid w1" "events w1 = events w @ es1" "commands w1 = commands w"
      "steps_to_execute w1 = steps_to_execute w" "subscriptions w1 = subscriptions w @ ss1"
      "pub_each w1 = pub_each w @ ps1"
    by blast
  from Cons.IH [OF r] obtain es2 ss2 ps2 where
    b: "invalid w1 \<longrightarrow> invalid w'" "events w' = events w1 @ es2" "commands w' = commands w1"
      "steps_to_execute w' = steps_to_execute w1" "subscriptions w' = subscriptions w1 @ ss2"
      "pub_each w' = pub_each w1 @ ps2"
    by blast
  from a b show ?case by simp
qed

lemma step_pub_break:
  "step_pub c w = Inr (Break, c', w') \<Longrightarrow> c' = c \<and> rejected c w w'"
  by (auto simp: step_pub_def rejected_def Let_def split: if_splits sum.splits)

lemma step_delay_break:
  "step_delay c w = Inr (Break, c', w') \<Longrightarrow> c' = c \<and> rejected c w w'"
  by (auto simp: step_delay_def rejected_def Let_def split: if_splits sum.splits)

lemma step_cmd_break:
  "step_cmd c w = Inr (Break, c', w') \<Longrightarrow> c' = c \<and> rejected c w w'"
  by (auto simp: step_cmd_def Let_def dest: step_pub_break step_delay_break split: if_splits)

lemma raw_nth: "raw_command c \<Longrightarrow> i < length (args c) \<Longrightarrow> \<exists>s. args c ! i = S s"
  by (cases "args c ! i") (auto simp: raw_command_def list_all_length)

lemma strings_of_raw:
  "list_all (\<lambda>a. case a of S s \<Rightarrow> True | I n \<Rightarrow> False) xs \<Longrightarrow> \<exists>ss. strings_of xs = Inr ss"
  by (induction xs rule: strings_of.induct) auto

lemma join_args_raw: "raw_command c \<Longrightarrow> \<exists>m. join_args (drop k (args c)) = Inr m"
proof -
  assume "raw_command c"
  then have "list_all (\<lambda>a. case a of S s \<Rightarrow> True | I n \<Rightarrow> False) (drop k (args c))"
    by (auto simp: raw_command_def list_all_iff dest: in_set_dropD)
  from strings_of_raw [OF this] show ?thesis by (auto simp: join_args_def)
qed

lemma quoted_message_iff: "join_args xs = Inr m \<Longrightarrow> quoted_message xs = (\<not> not_quoted m)"
  by (auto simp: quoted_message_def not_quoted_def)

lemma reject_fields [simp]:
  "events (reject e w) = events w @ [e]"
  "invalid (reject e w) = True"
  "steps_to_execute (reject e w) = steps_to_execute w"
  "commands (reject e w) = commands w"
  by (simp_all add: reject_def)

lemma raw_command_of_line: "raw_command (command_of_line line)"
  by (simp add: raw_command_def command_of_line_def Let_def list_all_iff)

text \<open>The handlers of the Configuration Builder agree with the grammar.\<close>

lemma cfg_client_id_raw:
  "cmd c = ''CFG_CLIENT_ID'' \<Longrightarrow>
     (case config_violation c of
        Some e \<Rightarrow> cfg_client_id c w = Inr (reject e w)
      | None \<Rightarrow> (\<exists>w'. cfg_client_id c w = Inr w' \<and> events w' = events w \<and> invalid w' = invalid w))"
  by (simp add: config_violation_def grammar_error_def cfg_client_id_def missing_arg_def reject_def)

lemma cfg_user_raw:
  "cmd c = ''CFG_USER'' \<Longrightarrow>
     (case config_violation c of
        Some e \<Rightarrow> cfg_user c w = Inr (reject e w)
      | None \<Rightarrow> (\<exists>w'. cfg_user c w = Inr w' \<and> events w' = events w \<and> invalid w' = invalid w))"
  by (simp add: config_violation_def grammar_error_def cfg_user_def missing_arg_def reject_def)

lemma cfg_tls_cert_raw:
  "cmd c = ''CFG_TLS_CERT'' \<Longrightarrow>
     (case config_violation c of
        Some e \<Rightarrow> cfg_tls_cert c w = Inr (reject e w)
      | None \<Rightarrow> (\<exists>w'. cfg_tls_cert c w = Inr w' \<and> events w' = events w \<and> invalid w' = invalid w))"
  by (simp add: config_violation_def grammar_error_def cfg_tls_cert_def missing_arg_def reject_def)

lemma cfg_clean_session_raw:
  assumes "raw_command c" and k: "cmd c = ''CFG_CLEAN_SESSION''"
  shows "case config_violation c of
        Some e \<Rightarrow> cfg_clean_session c w = Inr (reject e w)
      | None \<Rightarrow> (\<exists>w'. cfg_clean_session c w = Inr w' \<and> events w' = events w \<and> invalid w' = invalid w)"
proof (cases "length (args c) = 0")
  case True
  with k show ?thesis
    by (simp add: config_violation_def grammar_error_def cfg_clean_session_def missing_arg_def reject_def)
next
  case False
  then obtain s where s: "args c ! 0 = S s" using raw_nth [OF assms(1), of 0] by auto
  with k False show ?thesis
    by (simp add: config_violation_def grammar_error_def cfg_clean_session_def invalid_arg_def
        reject_def yes_or_no_def CMDSCRIPT_ARGS_YES_NO_def)
qed

lemma cfg_use_tls_raw:
  assumes "raw_command c" and k: "cmd c = ''CFG_USE_TLS''"
  shows "case config_violation c of
        Some e \<Rightarrow> cfg_use_tls c w = Inr (reject e w)
      | None \<Rightarrow> (\<exists>w'. cfg_use_tls c w = Inr w' \<and> events w' = events w \<and> invalid w' = invalid w)"
proof (cases "length (args c) = 0")
  case True
  with k show ?thesis
    by (simp add: config_violation_def grammar_error_def cfg_use_tls_def missing_arg_def reject_def)
next
  case False
  then obtain s where s: "args c ! 0 = S s" using raw_nth [OF assms(1), of 0] by auto
  with k False show ?thesis
    by (simp add: config_violation_def grammar_error_def cfg_use_tls_def invalid_arg_def
        reject_def yes_or_no_def CMDSCRIPT_ARGS_YES_NO_def)
qed

lemma cfg_keepalive_raw:
  assumes "raw_command c" and k: "cmd c = ''CFG_KEEPALIVE''"
  shows "case config_violation c of
        Some e \<Rightarrow> cfg_keepalive c w = Inr (reject e w)
      | None \<Rightarrow> (\<exists>w'. cfg_keepalive c w = Inr w' \<and> events w' = events w \<and> invalid w' = invalid w)"
proof (cases "length (args c) = 0")
  case True
  with k show ?thesis
    by (simp add: config_violation_def grammar_error_def cfg_keepalive_def missing_arg_def reject_def)
next
  case False
  then obtain s where s: "args c ! 0 = S s" using raw_nth [OF assms(1), of 0] by auto
  with k False show ?thesis
    by (cases "py_int s")
      (simp_all add: config_violation_def grammar_error_def cfg_keepalive_def invalid_arg_def
        reject_def is_integer_def)
qed

lemma cfg_sub_raw:
  assumes "raw_command c" and k: "cmd c = ''SUB''"
  shows "case config_violation c of
        Some e \<Rightarrow> cfg_sub c w = Inr (reject e w)
      | None \<Rightarrow> (\<exists>w'. cfg_sub c w = Inr w' \<and> events w' = events w \<and> invalid w' = invalid w)"
proof (cases "length (args c) < 3")
  case True
  with k show ?thesis
    by (simp add: config_violation_def grammar_error_def cfg_sub_def missing_arg_def reject_def)
next
  case False
  then have "0 < length (args c)" by arith
  from raw_nth [OF assms(1) this] obtain s where s: "args c ! 0 = S s" by blast
  with k False show ?thesis
    by (cases "py_int s")
      (simp_all add: config_violation_def grammar_error_def cfg_sub_def invalid_arg_def
        reject_def is_integer_def)
qed

lemma cfg_connect_raw:
  assumes "raw_command c" and k: "cmd c = ''CONNECT''"
  shows "case config_violation c of
        Some e \<Rightarrow> cfg_connect c w = Inr (reject e w)
      | None \<Rightarrow> (\<exists>w'. cfg_connect c w = Inr w' \<and> events w' = events w \<and> invalid w' = invalid w)"
proof (cases "length (args c) < 2")
  case True
  with k show ?thesis
    by (simp add: config_violation_def grammar_error_def cfg_connect_def missing_arg_def reject_def)
next
  case False
  then have "1 < length (args c)" by arith
  from raw_nth [OF assms(1) this] obtain s where s: "args c ! 1 = S s" by blast
  with k False show ?thesis
    by (cases "py_int s")
      (simp_all add: config_violation_def grammar_error_def cfg_connect_def invalid_arg_def
        reject_def is_integer_def)
qed

lemma cfg_pub_each_raw:
  assumes "raw_command c" and k: "cmd c = ''CFG_PUB_EACH''"
  shows "case config_violation c of
        Some e \<Rightarrow> cfg_pub_each c w = Inr (reject e w)
      | None \<Rightarrow> (\<exists>w'. cfg_pub_each c w = Inr w' \<and> events w' = events w \<and> invalid w' = invalid w)"
proof (cases "length (args c) < 4")
  case True
  with k show ?thesis
    by (simp add: config_violation_def grammar_error_def cfg_pub_each_def missing_arg_def reject_def)
next
  case False
  then have l: "0 < length (args c)" "1 < length (args c)" by arith+
  from raw_nth [OF assms(1) l(1)] obtain s where s0: "args c ! 0 = S s" by blast
  from raw_nth [OF assms(1) l(2)] obtain t where s1: "args c ! 1 = S t" by blast
  note s = s0 s1
  obtain m where m: "join_args (drop 3 (args c)) = Inr m"
    using join_args_raw [OF assms(1)] by blast
  note q = quoted_message_iff [OF m]
  from k False s have v: "config_violation c =
      (if py_int s \<noteq> None \<and> py_int t \<noteq> None \<and> \<not> not_quoted m then None
       else Some (Error_invalid_arg (cmd c) (args c)))"
    by (simp add: config_violation_def grammar_error_def is_integer_def q)
  show ?thesis
  proof (cases "py_int s")
    case None
    with False s v show ?thesis by (simp add: cfg_pub_each_def invalid_arg_def reject_def)
  next
    case ps: (Some n)
    show ?thesis
    proof (cases "py_int t")
      case None
      with False s v ps show ?thesis by (simp add: cfg_pub_each_def invalid_arg_def reject_def)
    next
      case pt: (Some q)
      show ?thesis
      proof (cases "not_quoted m")
        case True
        with False s v ps pt m show ?thesis by (simp add: cfg_pub_each_def invalid_arg_def reject_def)
      next
        case nq: False
        with False s v ps pt m show ?thesis by (simp add: cfg_pub_each_def)
      qed
    qed
  qed
qed

lemma config_cmd_raw:
  assumes r: "raw_command c"
  shows "case config_violation c of
        Some e \<Rightarrow> config_cmd c w = Inr (reject e w)
      | None \<Rightarrow> (\<exists>w'. config_cmd c w = Inr w' \<and> events w' = events w \<and> invalid w' = invalid w)"
proof -
  consider (a) "cmd c = ''CFG_CLIENT_ID''" | (b) "cmd c = ''CFG_CLEAN_SESSION''"
    | (c) "cmd c = ''CFG_KEEPALIVE''" | (d) "cmd c = ''CFG_USER''" | (e) "cmd c = ''CFG_TLS_CERT''"
    | (f) "cmd c = ''CFG_USE_TLS''" | (g) "cmd c = ''CFG_PUB_EACH''" | (h) "cmd c = ''SUB''"
    | (i) "cmd c = ''CONNECT''"
    | (j) "cmd c \<notin> set [''CFG_CLIENT_ID'', ''CFG_CLEAN_SESSION'', ''CFG_KEEPALIVE'', ''CFG_USER'',
             ''CFG_TLS_CERT'', ''CFG_USE_TLS'', ''CFG_PUB_EACH'', ''SUB'', ''CONNECT'']"
    by auto
  then show ?thesis
  proof cases
    case a
    then have eq: "config_cmd c w = cfg_client_id c w" by (simp add: config_cmd_def)
    show ?thesis unfolding eq by (rule cfg_client_id_raw [OF a])
  next
    case b
    then have eq: "config_cmd c w = cfg_clean_session c w" by (simp add: config_cmd_def)
    show ?thesis unfolding eq by (rule cfg_clean_session_raw [OF r b])
  next
    case c
    then have eq: "config_cmd c w = cfg_keepalive c w" by (simp add: config_cmd_def)
    show ?thesis unfolding eq by (rule cfg_keepalive_raw [OF r c])
  next
    case d
    then have eq: "config_cmd c w = cfg_user c w" by (simp add: config_cmd_def)
    show ?thesis unfolding eq by (rule cfg_user_raw [OF d])
  next
    case e
    then have eq: "config_cmd c w = cfg_tls_cert c w" by (simp add: config_cmd_def)
    show ?thesis unfolding eq by (rule cfg_tls_cert_raw [OF e])
  next
    case f
    then have eq: "config_cmd c w = cfg_use_tls c w" by (simp add: config_cmd_def)
    show ?thesis unfolding eq by (rule cfg_use_tls_raw [OF r f])
  next
    case g
    then have eq: "config_cmd c w = cfg_pub_each c w" by (simp add: config_cmd_def)
    show ?thesis unfolding eq by (rule cfg_pub_each_raw [OF r g])
  next
    case h
    then have eq: "config_cmd c w = cfg_sub c w" by (simp add: config_cmd_def)
    show ?thesis unfolding eq by (rule cfg_sub_raw [OF r h])
  next
    case i
    then have eq: "config_cmd c w = cfg_connect c w" by (simp add: config_cmd_def)
    show ?thesis unfolding eq by (rule cfg_connect_raw [OF r i])
  next
    case j
    then show ?thesis by (simp add: config_cmd_def config_violation_def)
  qed
qed

lemma config_pass_append:
  "config_pass (xs @ ys) w = (case config_pass xs w of Inl e \<Rightarrow> Inl e | Inr w1 \<Rightarrow> config_pass ys w1)"
  by (induction xs arbitrary: w) (auto split: sum.splits)

lemma config_pass_raw:
  "list_all raw_command cs \<Longrightarrow>
     \<exists>w'. config_pass cs w = Inr w' \<and>
       events w' = events w @ List.map_filter config_violation cs \<and>
       invalid w' = (invalid w \<or> List.map_filter config_violation cs \<noteq> [])"
proof (induction cs arbitrary: w)
  case Nil
  show ?case by (simp add: map_filter_simps)
next
  case (Cons c cs)
  from Cons.prems have r: "raw_command c" and rs: "list_all raw_command cs" by simp_all
  show ?case
  proof (cases "config_violation c")
    case None
    with config_cmd_raw [OF r, of w] obtain w1 where
      w1: "config_cmd c w = Inr w1" "events w1 = events w" "invalid w1 = invalid w" by auto
    from Cons.IH [OF rs, of w1] obtain w' where
      w': "config_pass cs w1 = Inr w'"
        "events w' = events w1 @ List.map_filter config_violation cs"
        "invalid w' = (invalid w1 \<or> List.map_filter config_violation cs \<noteq> [])" by blast
    from w1 w' None show ?thesis by (simp add: map_filter_simps)
  next
    case (Some e)
    with config_cmd_raw [OF r, of w] have w1: "config_cmd c w = Inr (reject e w)" by simp
    from Cons.IH [OF rs, of "reject e w"] obtain w' where
      w': "config_pass cs (reject e w) = Inr w'"
        "events w' = events (reject e w) @ List.map_filter config_violation cs"
        "invalid w' = (invalid (reject e w) \<or> List.map_filter config_violation cs \<noteq> [])" by blast
    from w1 w' Some show ?thesis by (simp add: map_filter_simps)
  qed
qed

text \<open>The handlers of the Step Compiler agree with the grammar.\<close>

lemma step_delay_raw:
  assumes "raw_command c" and k: "cmd c = ''DELAY'' \<or> cmd c = ''DELAY_MS'' \<or> cmd c = ''DELAY_H''"
  shows "case step_violation c of
        Some e \<Rightarrow> step_delay c w = Inr (Break, c, reject e w)
      | None \<Rightarrow> (\<exists>c' w'. step_delay c w = Inr (Next, c', w') \<and> events w' = events w \<and>
                   invalid w' = invalid w)"
proof -
  from k have v: "step_violation c = grammar_error 1 (is_integer (args c ! 0)) c"
    by (auto simp: step_violation_def)
  show ?thesis
  proof (cases "length (args c) = 0")
    case True
    with v show ?thesis
      by (simp add: grammar_error_def step_delay_def missing_arg_def reject_def)
  next
    case False
    then obtain s where s: "args c ! 0 = S s" using raw_nth [OF assms(1), of 0] by auto
    with v False show ?thesis
      by (cases "py_int s")
        (simp_all add: grammar_error_def step_delay_def invalid_arg_def reject_def is_integer_def
          Let_def)
  qed
qed

lemma step_pub_raw:
  assumes "raw_command c" and k: "cmd c = ''PUB''"
  shows "case step_violation c of
        Some e \<Rightarrow> step_pub c w = Inr (Break, c, reject e w)
      | None \<Rightarrow> (\<exists>c' w'. step_pub c w = Inr (Next, c', w') \<and> events w' = events w \<and>
                   invalid w' = invalid w)"
proof (cases "length (args c) < 3")
  case True
  with k show ?thesis
    by (simp add: step_violation_def grammar_error_def step_pub_def missing_arg_def reject_def)
next
  case False
  then have "0 < length (args c)" by arith
  from raw_nth [OF assms(1) this] obtain s where s: "args c ! 0 = S s" by blast
  obtain m where m: "join_args (drop 2 (args c)) = Inr m"
    using join_args_raw [OF assms(1)] by blast
  note q = quoted_message_iff [OF m]
  from k False s have v: "step_violation c =
      (if py_int s \<noteq> None \<and> \<not> not_quoted m then None
       else Some (Error_invalid_arg (cmd c) (args c)))"
    by (simp add: step_violation_def grammar_error_def is_integer_def q)
  show ?thesis
  proof (cases "py_int s")
    case None
    with False s v show ?thesis by (simp add: step_pub_def invalid_arg_def reject_def)
  next
    case ps: (Some n)
    show ?thesis
    proof (cases "not_quoted m")
      case True
      with False s v ps m show ?thesis by (simp add: step_pub_def invalid_arg_def reject_def)
    next
      case nq: False
      with False s v ps m show ?thesis by (simp add: step_pub_def Let_def)
    qed
  qed
qed

lemma step_cmd_raw:
  assumes r: "raw_command c"
  shows "case step_violation c of
        Some e \<Rightarrow> step_cmd c w = Inr (Break, c, reject e w)
      | None \<Rightarrow> (\<exists>c' w'. step_cmd c w = Inr (Next, c', w') \<and> events w' = events w \<and>
                   invalid w' = invalid w)"
proof -
  consider (p) "cmd c = ''PUB''"
    | (d) "cmd c = ''DELAY'' \<or> cmd c = ''DELAY_MS'' \<or> cmd c = ''DELAY_H''"
    | (o) "cmd c \<notin> set [''PUB'', ''DELAY'', ''DELAY_MS'', ''DELAY_H'']"
    by auto
  then show ?thesis
  proof cases
    case p
    then have eq: "step_cmd c w = step_pub c w" by (simp add: step_cmd_def)
    show ?thesis unfolding eq by (rule step_pub_raw [OF r p])
  next
    case d
    then have eq: "step_cmd c w = step_delay c w" by (auto simp: step_cmd_def)
    show ?thesis unfolding eq by (rule step_delay_raw [OF r d])
  next
    case o
    then show ?thesis by (simp add: step_cmd_def step_violation_def)
  qed
qed

lemma step_pass_valid_prefix:
  "list_all raw_command pre \<Longrightarrow> list_all (\<lambda>c. step_violation c = None) pre \<Longrightarrow>
     \<exists>seen' wp. events wp = events w \<and> invalid wp = invalid w \<and>
       (\<forall>rest. step_pass seen (pre @ rest) w = step_pass seen' rest wp)"
proof (induction pre arbitrary: seen w)
  case Nil
  show ?case by auto
next
  case (Cons c cs)
  from Cons.prems have r: "raw_command c" and rs: "list_all raw_command cs"
    and v: "step_violation c = None" and vs: "list_all (\<lambda>c. step_violation c = None) cs"
    by simp_all
  from step_cmd_raw [OF r, of w] v obtain c' w1 where
    c: "step_cmd c w = Inr (Next, c', w1)" "events w1 = events w" "invalid w1 = invalid w"
    by auto
  from Cons.IH [OF rs vs, of w1 "seen @ [c']"] obtain seen' wp where
    i: "events wp = events w1" "invalid wp = invalid w1"
      "\<forall>rest. step_pass (seen @ [c']) (cs @ rest) w1 = step_pass seen' rest wp"
    by blast
  from c i have "events wp = events w \<and> invalid wp = invalid w \<and>
       (\<forall>rest. step_pass seen ((c # cs) @ rest) w = step_pass seen' rest wp)"
    by simp
  then show ?case by blast
qed

text \<open>
  Claim C4. A list of raw commands holds a command that breaks the grammar of its keyword.
  The Configuration Builder comes to that command whatever the commands before it, logs
  its error line and sets the invalid flag, and goes on with the commands after it as it
  would from that state; at the end of the pass the flag is set and the error lines of all
  the commands that break the grammar have been logged, in the order of the list, and
  nothing else. In the Step Compiler, when the command is the first of the list to break
  the grammar, the pass logs its error line and nothing else, sets the invalid flag, and
  ends with the steps of the commands before it: the commands after it give no step.
\<close>

theorem C4_builder_continues_compiler_stops:
  assumes "list_all raw_command (pre @ bad # post)"
  shows "(config_violation bad = Some e \<longrightarrow>
            (\<exists>w1 w'. config_pass pre w = Inr w1 \<and>
               config_cmd bad w1 = Inr (reject e w1) \<and>
               config_pass (pre @ bad # post) w = config_pass post (reject e w1) \<and>
               config_pass (pre @ bad # post) w = Inr w' \<and> invalid w' \<and>
               events w' = events w @ List.map_filter config_violation (pre @ bad # post)))
       \<and> (step_violation bad = Some e \<and> list_all (\<lambda>c. step_violation c = None) pre \<longrightarrow>
            (\<exists>wp w'. step_pass seen pre w = Inr wp \<and>
               step_pass seen (pre @ bad # post) w = Inr w' \<and>
               steps_to_execute w' = steps_to_execute wp \<and>
               events wp = events w \<and> events w' = events w @ [e] \<and> invalid w'))"
proof (intro conjI impI)
  assume v: "config_violation bad = Some e"
  from assms have rp: "list_all raw_command pre" and rb: "raw_command bad" by simp_all
  from config_pass_raw [OF rp, of w] obtain w1 where w1: "config_pass pre w = Inr w1" by blast
  from config_cmd_raw [OF rb, of w1] v have b: "config_cmd bad w1 = Inr (reject e w1)" by simp
  from w1 b have s: "config_pass (pre @ bad # post) w = config_pass post (reject e w1)"
    by (simp add: config_pass_append)
  from config_pass_raw [OF assms, of w] obtain w' where
    w': "config_pass (pre @ bad # post) w = Inr w'"
      "events w' = events w @ List.map_filter config_violation (pre @ bad # post)"
      "invalid w' = (invalid w \<or> List.map_filter config_violation (pre @ bad # post) \<noteq> [])"
    by blast
  from v have "List.map_filter config_violation (pre @ bad # post) \<noteq> []"
    by (simp add: map_filter_def)
  with w'(3) have "invalid w'" by simp
  with w1 b s w'(1,2)
  show "\<exists>w1 w'. config_pass pre w = Inr w1 \<and>
               config_cmd bad w1 = Inr (reject e w1) \<and>
               config_pass (pre @ bad # post) w = config_pass post (reject e w1) \<and>
               config_pass (pre @ bad # post) w = Inr w' \<and> invalid w' \<and>
               events w' = events w @ List.map_filter config_violation (pre @ bad # post)"
    by blast
next
  assume h: "step_violation bad = Some e \<and> list_all (\<lambda>c. step_violation c = None) pre"
  from assms have rp: "list_all raw_command pre" and rb: "raw_command bad" by simp_all
  from h have v: "step_violation bad = Some e" and vp: "list_all (\<lambda>c. step_violation c = None) pre"
    by simp_all
  from step_pass_valid_prefix [OF rp vp, of w seen] obtain seen' wp where
    p: "events wp = events w" "invalid wp = invalid w"
      "\<forall>rest. step_pass seen (pre @ rest) w = step_pass seen' rest wp"
    by blast
  from p(3) have a: "step_pass seen pre w = Inr (wp\<lparr>commands := seen'\<rparr>)"
    using spec [OF p(3), of "[]"] by simp
  from step_cmd_raw [OF rb, of wp] v have "step_cmd bad wp = Inr (Break, bad, reject e wp)" by simp
  with p(3) have b: "step_pass seen (pre @ bad # post) w
      = Inr ((reject e wp)\<lparr>commands := seen' @ bad # post\<rparr>)"
    by simp
  let ?wp = "wp\<lparr>commands := seen'\<rparr>" and ?w' = "(reject e wp)\<lparr>commands := seen' @ bad # post\<rparr>"
  from p(1) have f: "steps_to_execute ?w' = steps_to_execute ?wp" "events ?wp = events w"
    "events ?w' = events w @ [e]" "invalid ?w'" by simp_all
  from a b f
  show "\<exists>wp w'. step_pass seen pre w = Inr wp \<and>
               step_pass seen (pre @ bad # post) w = Inr w' \<and>
               steps_to_execute w' = steps_to_execute wp \<and>
               events wp = events w \<and> events w' = events w @ [e] \<and> invalid w'"
    by blast
qed

theorem C4_builder_continues_compiler_stops_witness:
  "(\<exists>w'. config_pass
            [\<lparr>cmd = ''SUB'', args = [S ''0'', S ''t'', S ''f'']\<rparr>,
             \<lparr>cmd = ''SUB'', args = [S ''0'', S ''t'']\<rparr>,
             \<lparr>cmd = ''CFG_KEEPALIVE'', args = [S ''abc'']\<rparr>,
             \<lparr>cmd = ''SUB'', args = [S ''1'', S ''u'', S ''g'']\<rparr>] initial_state = Inr w'
          \<and> invalid w'
          \<and> events w' = [Error_missing_arg ''SUB'', Error_invalid_arg ''CFG_KEEPALIVE'' [S ''abc'']])
   \<and> (\<exists>wp w'. step_pass [] [\<lparr>cmd = ''DELAY'', args = [S ''5'']\<rparr>] initial_state = Inr wp
          \<and> step_pass []
               [\<lparr>cmd = ''DELAY'', args = [S ''5'']\<rparr>,
                \<lparr>cmd = ''DELAY'', args = [S ''abc'']\<rparr>,
                \<lparr>cmd = ''DELAY'', args = [S ''7'']\<rparr>] initial_state = Inr w'
          \<and> steps_to_execute w' = steps_to_execute wp
          \<and> events w' = [Error_invalid_arg ''DELAY'' [S ''abc'']] \<and> invalid w')"
proof -
  let ?s1 = "\<lparr>cmd = ''SUB'', args = [S ''0'', S ''t'', S ''f'']\<rparr>"
  let ?sb = "\<lparr>cmd = ''SUB'', args = [S ''0'', S ''t'']\<rparr>"
  let ?ka = "\<lparr>cmd = ''CFG_KEEPALIVE'', args = [S ''abc'']\<rparr>"
  let ?s2 = "\<lparr>cmd = ''SUB'', args = [S ''1'', S ''u'', S ''g'']\<rparr>"
  let ?da = "\<lparr>cmd = ''DELAY'', args = [S ''5'']\<rparr>"
  let ?db = "\<lparr>cmd = ''DELAY'', args = [S ''abc'']\<rparr>"
  let ?dc = "\<lparr>cmd = ''DELAY'', args = [S ''7'']\<rparr>"
  have e: "events initial_state = []" by (simp add: initial_state_def)
  have ra: "list_all raw_command ([?s1] @ ?sb # [?ka, ?s2])" by code_simp
  have va: "config_violation ?sb = Some (Error_missing_arg ''SUB'')" by code_simp
  have ma: "List.map_filter config_violation ([?s1] @ ?sb # [?ka, ?s2])
      = [Error_missing_arg ''SUB'', Error_invalid_arg ''CFG_KEEPALIVE'' [S ''abc'']]"
    by code_simp
  have la: "[?s1] @ ?sb # [?ka, ?s2] = [?s1, ?sb, ?ka, ?s2]" by simp
  from C4_builder_continues_compiler_stops [OF ra, where e = "Error_missing_arg ''SUB''"
      and w = initial_state and seen = "[]"] va
  obtain w' where a: "config_pass ([?s1] @ ?sb # [?ka, ?s2]) initial_state = Inr w'" "invalid w'"
      "events w' = events initial_state @ List.map_filter config_violation ([?s1] @ ?sb # [?ka, ?s2])"
    by blast
  from a(3) have "events w' = [Error_missing_arg ''SUB'', Error_invalid_arg ''CFG_KEEPALIVE'' [S ''abc'']]"
    unfolding ma e by simp
  with a(1,2) have first: "\<exists>w'. config_pass [?s1, ?sb, ?ka, ?s2] initial_state = Inr w' \<and> invalid w'
          \<and> events w' = [Error_missing_arg ''SUB'', Error_invalid_arg ''CFG_KEEPALIVE'' [S ''abc'']]"
    unfolding la by blast
  have rb: "list_all raw_command ([?da] @ ?db # [?dc])" by code_simp
  have vb: "step_violation ?db = Some (Error_invalid_arg ''DELAY'' [S ''abc''])" by code_simp
  have pb: "list_all (\<lambda>c. step_violation c = None) [?da]" by code_simp
  have lb: "[?da] @ ?db # [?dc] = [?da, ?db, ?dc]" by simp
  from C4_builder_continues_compiler_stops [OF rb, where e = "Error_invalid_arg ''DELAY'' [S ''abc'']"
      and w = initial_state and seen = "[]"] vb pb
  obtain wp w2 where b: "step_pass [] [?da] initial_state = Inr wp"
      "step_pass [] ([?da] @ ?db # [?dc]) initial_state = Inr w2"
      "steps_to_execute w2 = steps_to_execute wp"
      "events w2 = events initial_state @ [Error_invalid_arg ''DELAY'' [S ''abc'']]" "invalid w2"
    by blast
  from b(4) have "events w2 = [Error_invalid_arg ''DELAY'' [S ''abc'']]" unfolding e by simp
  with b(1,2,3,5) have second: "\<exists>wp w'. step_pass [] [?da] initial_state = Inr wp
          \<and> step_pass [] [?da, ?db, ?dc] initial_state = Inr w'
          \<and> steps_to_execute w' = steps_to_execute wp
          \<and> events w' = [Error_invalid_arg ''DELAY'' [S ''abc'']] \<and> invalid w'"
    unfolding lb by blast
  from first second show ?thesis by blast
qed

subsection \<open>Parsing the same text twice (C2)\<close>

lemma lines_to_rm_index_frame:
  "lines_to_rm_index i ls w = Inr (rm, w') \<Longrightarrow>
     commands w' = commands w \<and> subscriptions w' = subscriptions w \<and> pub_each w' = pub_each w \<and>
     steps_to_execute w' = steps_to_execute w \<and> length rm \<le> length ls"
proof (induction ls arbitrary: i w rm w')
  case Nil
  then show ?case by simp
next
  case (Cons line rest)
  note prems = Cons.prems and IH = Cons.IH
  show ?case
  proof (cases "length line = 0 \<or> hd line = CHR ''#''")
    case True
    with prems obtain rm1 where r: "lines_to_rm_index (Suc i) rest w = Inr (rm1, w')"
      and m: "rm = i # rm1"
      by (auto split: sum.splits prod.splits if_splits)
    from IH [OF r] m show ?thesis by simp
  next
    case False
    show ?thesis
    proof (cases "py_split line")
      case Nil
      with False prems show ?thesis by simp
    next
      case (Cons tok toks)
      show ?thesis
      proof (cases "tok \<in> set CMDSCRIPT_COMMANDS")
        case True
        with False Cons prems have r: "lines_to_rm_index (Suc i) rest w = Inr (rm, w')" by simp
        from IH [OF r] show ?thesis by simp
      next
        case unknown: False
        with False Cons prems obtain rm1 where
          r: "lines_to_rm_index (Suc i) rest (logger (Warn_unexpected_cmd line) w) = Inr (rm1, w')"
          and m: "rm = i # rm1"
          by (auto split: sum.splits prod.splits)
        from IH [OF r] m show ?thesis by simp
      qed
    qed
  qed
qed

lemma length_del_at: "length xs - 1 \<le> length (del_at n xs)"
  by (auto simp: del_at_def min_def)

lemma length_remove_lines: "length ls - length rm \<le> length (remove_lines rm r ls)"
proof (induction rm arbitrary: r ls)
  case Nil
  show ?case by simp
next
  case (Cons i rm)
  have "length (del_at (i - r) ls) - length rm
          \<le> length (remove_lines rm (Suc r) (del_at (i - r) ls))"
    by (rule Cons.IH)
  moreover have "length ls - 1 \<le> length (del_at (i - r) ls)"
    by (rule length_del_at)
  ultimately show ?case by simp
qed

lemma kept_lines_props:
  assumes "kept_lines text w = Inr (ls, w')"
  shows "ls \<noteq> [] \<and> commands w' = commands w \<and> subscriptions w' = subscriptions w \<and>
         pub_each w' = pub_each w \<and> steps_to_execute w' = steps_to_execute w"
proof -
  let ?L = "split_on LF (replace_crlf text)"
  from assms obtain rm where r: "lines_to_rm_index 0 (take (length ?L - 1) ?L) w = Inr (rm, w')"
    and ls: "ls = remove_lines rm 0 ?L"
    by (auto simp: kept_lines_def Let_def split: sum.splits prod.splits)
  note f = lines_to_rm_index_frame [OF r]
  have "1 \<le> length ?L"
    using split_on_not_Nil [of LF "replace_crlf text"] by (cases ?L) auto
  moreover from f have "length rm \<le> length ?L - 1" by simp
  moreover have "length ?L - length rm \<le> length ls"
    unfolding ls by (rule length_remove_lines)
  ultimately have "1 \<le> length ls" by arith
  then have "ls \<noteq> []" by auto
  with f show ?thesis by simp
qed

lemma step_pub_cmd: "step_pub c w = Inr (fl, c', w') \<Longrightarrow> cmd c' = cmd c"
  by (auto simp: step_pub_def Let_def split: if_splits sum.splits)

lemma step_delay_cmd: "step_delay c w = Inr (fl, c', w') \<Longrightarrow> cmd c' = cmd c"
  by (auto simp: step_delay_def Let_def split: if_splits sum.splits)

lemma step_pub_frame:
  "step_pub c w = Inr (fl, c', w') \<Longrightarrow>
     subscriptions w' = subscriptions w \<and> pub_each w' = pub_each w \<and>
     (\<exists>ts. steps_to_execute w' = steps_to_execute w @ ts)"
  by (auto simp: step_pub_def Let_def split: if_splits sum.splits)

lemma step_delay_frame:
  "step_delay c w = Inr (fl, c', w') \<Longrightarrow>
     subscriptions w' = subscriptions w \<and> pub_each w' = pub_each w \<and>
     (\<exists>ts. steps_to_execute w' = steps_to_execute w @ ts)"
  by (auto simp: step_delay_def Let_def split: if_splits sum.splits)

text \<open>A command the Step Compiler has been through is left alone by a second visit, unless
  that visit raises: the integer the first visit stored is not a string for \<^verbatim>\<open>is_int\<close>.\<close>

lemma step_pub_replay:
  assumes "step_pub c w = Inr (fl, c', w1)"
  shows "step_pub c' w2 = Inl TypeError \<or> (c' = c \<and> (\<exists>w2'. step_pub c w2 = Inr (fl, c, w2')))"
proof (cases fl)
  case Break
  with assms have "c' = c" using step_pub_break by blast
  moreover from assms Break have "\<exists>w2'. step_pub c w2 = Inr (fl, c, w2')"
    by (auto simp: step_pub_def Let_def split: if_splits sum.splits)
  ultimately show ?thesis by simp
next
  case Next
  with assms obtain n m where l: "\<not> length (args c) < 3"
    and c': "c' = c\<lparr>args := (take 2 (args c))[0 := I n] @ [S m]\<rparr>"
    by (auto simp: step_pub_def Let_def split: if_splits sum.splits)
  from l have "args c' ! 0 = I n" "\<not> length (args c') < 3"
    unfolding c' by (simp_all add: nth_append)
  then have "step_pub c' w2 = Inl TypeError"
    by (simp add: step_pub_def)
  then show ?thesis by simp
qed

lemma step_delay_replay:
  assumes "step_delay c w = Inr (fl, c', w1)"
  shows "step_delay c' w2 = Inl TypeError \<or> (c' = c \<and> (\<exists>w2'. step_delay c w2 = Inr (fl, c, w2')))"
proof (cases fl)
  case Break
  with assms have "c' = c" using step_delay_break by blast
  moreover from assms Break have "\<exists>w2'. step_delay c w2 = Inr (fl, c, w2')"
    by (auto simp: step_delay_def Let_def split: if_splits sum.splits)
  ultimately show ?thesis by simp
next
  case Next
  with assms obtain n where l: "length (args c) \<noteq> 0"
    and c': "c' = c\<lparr>args := (args c)[0 := I n]\<rparr>"
    by (auto simp: step_delay_def Let_def split: if_splits sum.splits)
  from l have "args c' ! 0 = I n" "length (args c') \<noteq> 0"
    unfolding c' by simp_all
  then have "step_delay c' w2 = Inl TypeError"
    by (simp add: step_delay_def)
  then show ?thesis by simp
qed

lemma step_cmd_replay:
  assumes "step_cmd c w = Inr (fl, c', w1)"
  shows "step_cmd c' w2 = Inl TypeError \<or> (c' = c \<and> (\<exists>w2'. step_cmd c w2 = Inr (fl, c, w2')))"
proof -
  consider (pub) "cmd c = ''PUB''"
    | (delay) "cmd c = ''DELAY'' \<or> cmd c = ''DELAY_MS'' \<or> cmd c = ''DELAY_H''"
    | (other) "cmd c \<notin> set [''PUB'', ''DELAY'', ''DELAY_MS'', ''DELAY_H'']"
    by auto
  then show ?thesis
  proof cases
    case pub
    with assms have s: "step_pub c w = Inr (fl, c', w1)" by (simp add: step_cmd_def)
    from step_pub_cmd [OF s] pub have k: "cmd c' = ''PUB''" by simp
    from pub k have "step_cmd c w2 = step_pub c w2" "step_cmd c' w2 = step_pub c' w2"
      by (simp_all add: step_cmd_def)
    with step_pub_replay [OF s, of w2] show ?thesis by simp
  next
    case delay
    with assms have s: "step_delay c w = Inr (fl, c', w1)" by (auto simp: step_cmd_def)
    from step_delay_cmd [OF s] have k: "cmd c' = cmd c" .
    from delay k have "step_cmd c w2 = step_delay c w2" "step_cmd c' w2 = step_delay c' w2"
      by (auto simp: step_cmd_def)
    with step_delay_replay [OF s, of w2] show ?thesis by simp
  next
    case other
    with assms have "c' = c" "fl = Next" by (auto simp: step_cmd_def Let_def)
    moreover from other have "\<exists>w2'. step_cmd c w2 = Inr (Next, c, w2')"
      by (auto simp: step_cmd_def Let_def)
    ultimately show ?thesis by simp
  qed
qed

lemma step_cmd_frame:
  assumes "step_cmd c w = Inr (fl, c', w')"
  shows "subscriptions w' = subscriptions w \<and> pub_each w' = pub_each w \<and>
     (\<exists>ts. steps_to_execute w' = steps_to_execute w @ ts)"
proof -
  consider (pub) "cmd c = ''PUB''"
    | (delay) "cmd c = ''DELAY'' \<or> cmd c = ''DELAY_MS'' \<or> cmd c = ''DELAY_H''"
    | (other) "cmd c \<notin> set [''PUB'', ''DELAY'', ''DELAY_MS'', ''DELAY_H'']"
    by auto
  then show ?thesis
  proof cases
    case pub
    with assms have "step_pub c w = Inr (fl, c', w')" by (simp add: step_cmd_def)
    then show ?thesis by (rule step_pub_frame)
  next
    case delay
    with assms have "step_delay c w = Inr (fl, c', w')" by (auto simp: step_cmd_def)
    then show ?thesis by (rule step_delay_frame)
  next
    case other
    with assms show ?thesis by (auto simp: step_cmd_def Let_def split: if_splits)
  qed
qed

lemma step_pass_shape:
  "step_pass seen cs w = Inr w' \<Longrightarrow>
     (\<exists>cs'. commands w' = seen @ cs' \<and> length cs' = length cs) \<and>
     subscriptions w' = subscriptions w \<and> pub_each w' = pub_each w \<and>
     (\<exists>ts. steps_to_execute w' = steps_to_execute w @ ts)"
proof (induction cs arbitrary: seen w)
  case Nil
  then show ?case by auto
next
  case (Cons c cs)
  from Cons.prems obtain fl c' wa where sc: "step_cmd c w = Inr (fl, c', wa)"
    by (auto split: sum.splits)
  from step_cmd_frame [OF sc] obtain ts1 where
    f: "subscriptions wa = subscriptions w" "pub_each wa = pub_each w"
       "steps_to_execute wa = steps_to_execute w @ ts1"
    by blast
  show ?case
  proof (cases fl)
    case Break
    with sc Cons.prems have "w' = wa\<lparr>commands := seen @ c' # cs\<rparr>" by simp
    with f show ?thesis by simp
  next
    case Next
    with sc Cons.prems have r: "step_pass (seen @ [c']) cs wa = Inr w'" by simp
    from Cons.IH [OF r] obtain cs1 ts2 where
      g: "commands w' = (seen @ [c']) @ cs1" "length cs1 = length cs"
         "subscriptions w' = subscriptions wa" "pub_each w' = pub_each wa"
         "steps_to_execute w' = steps_to_execute wa @ ts2"
      by blast
    from g(1,2) have "commands w' = seen @ (c' # cs1) \<and> length (c' # cs1) = length (c # cs)"
      by simp
    then have "\<exists>cs'. commands w' = seen @ cs' \<and> length cs' = length (c # cs)" by blast
    with f g show ?thesis by simp
  qed
qed

lemma step_pass_replay:
  "step_pass seen cs w = Inr w1 \<Longrightarrow>
   step_pass seen2 (drop (length seen) (commands w1) @ rest) w2 = Inr w3 \<Longrightarrow>
   \<exists>rest'. commands w3 = seen2 @ drop (length seen) (commands w1) @ rest' \<and>
           length rest' = length rest"
proof (induction cs arbitrary: seen w seen2 w2)
  case Nil
  from Nil.prems(1) have "drop (length seen) (commands w1) = []" by auto
  with Nil.prems(2) have "step_pass seen2 rest w2 = Inr w3" by simp
  from step_pass_shape [OF this] \<open>drop (length seen) (commands w1) = []\<close>
  show ?case by auto
next
  case (Cons c cs)
  from Cons.prems(1) obtain fl c' wa where sc: "step_cmd c w = Inr (fl, c', wa)"
    by (auto split: sum.splits)
  show ?case
  proof (cases fl)
    case Break
    with sc Cons.prems(1) have "w1 = wa\<lparr>commands := seen @ c' # cs\<rparr>" by simp
    then have d: "drop (length seen) (commands w1) = c' # cs" by simp
    with Cons.prems(2) have p: "step_pass seen2 (c' # cs @ rest) w2 = Inr w3" by simp
    from step_cmd_replay [OF sc, of w2] p obtain w2' where
      e: "c' = c" "step_cmd c w2 = Inr (fl, c, w2')"
      by (auto split: sum.splits)
    from p e Break have "w3 = w2'\<lparr>commands := seen2 @ c # cs @ rest\<rparr>" by simp
    with d e show ?thesis by simp
  next
    case Next
    with sc Cons.prems(1) have r: "step_pass (seen @ [c']) cs wa = Inr w1" by simp
    from step_pass_shape [OF r] obtain cs1 where
      g: "commands w1 = (seen @ [c']) @ cs1"
      by blast
    then have d: "drop (length seen) (commands w1) = c' # cs1"
      and d': "drop (length (seen @ [c'])) (commands w1) = cs1"
      by simp_all
    from d Cons.prems(2) have p: "step_pass seen2 (c' # cs1 @ rest) w2 = Inr w3" by simp
    from step_cmd_replay [OF sc, of w2] p obtain w2' where
      e: "c' = c" "step_cmd c w2 = Inr (fl, c, w2')"
      by (auto split: sum.splits)
    from p e Next have "step_pass (seen2 @ [c]) (cs1 @ rest) w2' = Inr w3" by simp
    with d' have q: "step_pass (seen2 @ [c])
        (drop (length (seen @ [c'])) (commands w1) @ rest) w2' = Inr w3" by simp
    from Cons.IH [OF r q] d' obtain rest' where
      "commands w3 = (seen2 @ [c]) @ cs1 @ rest'" "length rest' = length rest"
      by auto
    with d e show ?thesis by simp
  qed
qed

lemma cmdscript_parse_unfold:
  assumes "cmdscript_parse text w = Inr w'"
  shows "\<exists>ls wa wc. kept_lines text w = Inr (ls, wa) \<and>
     config_pass (commands wa @ map command_of_line ls)
       (wa\<lparr>commands := commands wa @ map command_of_line ls\<rparr>) = Inr wc \<and>
     step_pass [] (commands wc) wc = Inr w'"
  using assms by (auto simp: cmdscript_parse_def Let_def split: sum.splits prod.splits)

text \<open>A call of the parser only adds to the subscription, periodic-publish and step
  lists.\<close>

lemma cmdscript_parse_extends:
  assumes "cmdscript_parse text w = Inr w'"
  shows "(\<exists>ss. subscriptions w' = subscriptions w @ ss) \<and> (\<exists>ps. pub_each w' = pub_each w @ ps) \<and>
         (\<exists>ts. steps_to_execute w' = steps_to_execute w @ ts)"
proof -
  from cmdscript_parse_unfold [OF assms] obtain ls wa wc where
    k: "kept_lines text w = Inr (ls, wa)" and
    c: "config_pass (commands wa @ map command_of_line ls)
         (wa\<lparr>commands := commands wa @ map command_of_line ls\<rparr>) = Inr wc" and
    s: "step_pass [] (commands wc) wc = Inr w'"
    by blast
  from kept_lines_props [OF k] have
    a: "subscriptions wa = subscriptions w" "pub_each wa = pub_each w"
       "steps_to_execute wa = steps_to_execute w"
    by simp_all
  from config_pass_mono [OF c] obtain ss ps where
    b: "subscriptions wc = subscriptions wa @ ss" "pub_each wc = pub_each wa @ ps"
       "steps_to_execute wc = steps_to_execute wa"
    by auto
  from step_pass_shape [OF s] obtain ts where
    d: "subscriptions w' = subscriptions wc" "pub_each w' = pub_each wc"
       "steps_to_execute w' = steps_to_execute wc @ ts"
    by blast
  from a b d show ?thesis by simp
qed

text \<open>
  Claim C2 as stated (parsing the same text twice gives equal configurations) fails: the
  parser appends to the lists of the global configuration and never empties them. After
  two calls on the one line \<^verbatim>\<open>SUB 1 t f\<close> the command list has two entries and the
  subscription list three, against one each after the first call.
\<close>

theorem C2_second_parse_accumulates_counterexample:
  "map_sum id commands (cmdscript_parse ''SUB 1 t f'' initial_state)
     = Inr [\<lparr>cmd = ''SUB'', args = [S ''1'', S ''t'', S ''f'']\<rparr>]
   \<and> map_sum id commands (parse_twice ''SUB 1 t f'' initial_state)
     = Inr [\<lparr>cmd = ''SUB'', args = [S ''1'', S ''t'', S ''f'']\<rparr>,
            \<lparr>cmd = ''SUB'', args = [S ''1'', S ''t'', S ''f'']\<rparr>]
   \<and> map_sum id subscriptions (cmdscript_parse ''SUB 1 t f'' initial_state)
     = Inr [\<lparr>sub_qos = 1, sub_topic = S ''t'', logfile = S ''f''\<rparr>]
   \<and> map_sum id subscriptions (parse_twice ''SUB 1 t f'' initial_state)
     = Inr [\<lparr>sub_qos = 1, sub_topic = S ''t'', logfile = S ''f''\<rparr>,
            \<lparr>sub_qos = 1, sub_topic = S ''t'', logfile = S ''f''\<rparr>,
            \<lparr>sub_qos = 1, sub_topic = S ''t'', logfile = S ''f''\<rparr>]"
  by code_simp

text \<open>
  Claim C2, amended: for every script text and every starting configuration, when two
  successive calls of the parser on the text both return, the command list after the
  second call is the command list after the first call followed by at least one more
  command (so the two are never equal), and the subscription list, the periodic-publish
  list and the step list after the second call begin with the lists after the first.
\<close>

theorem C2_second_parse_appends:
  assumes "cmdscript_parse text w0 = Inr w1" and "parse_twice text w0 = Inr w2"
  shows "(\<exists>new. commands w2 = commands w1 @ new \<and> new \<noteq> []) \<and>
         (\<exists>ss. subscriptions w2 = subscriptions w1 @ ss) \<and>
         (\<exists>ps. pub_each w2 = pub_each w1 @ ps) \<and>
         (\<exists>ts. steps_to_execute w2 = steps_to_execute w1 @ ts)"
proof -
  from assms have p2: "cmdscript_parse text w1 = Inr w2" by (simp add: parse_twice_def)
  from cmdscript_parse_unfold [OF assms(1)] obtain ls wa wc where
    s1: "step_pass [] (commands wc) wc = Inr w1"
    by blast
  from cmdscript_parse_unfold [OF p2] obtain ls2 wa2 wc2 where
    k2: "kept_lines text w1 = Inr (ls2, wa2)" and
    c2: "config_pass (commands wa2 @ map command_of_line ls2)
         (wa2\<lparr>commands := commands wa2 @ map command_of_line ls2\<rparr>) = Inr wc2" and
    s2: "step_pass [] (commands wc2) wc2 = Inr w2"
    by blast
  from kept_lines_props [OF k2] have n: "ls2 \<noteq> []" and a: "commands wa2 = commands w1"
    by simp_all
  from config_pass_mono [OF c2] a have "commands wc2 = commands w1 @ map command_of_line ls2"
    by simp
  with s2 have "step_pass [] (drop (length ([]::Command list)) (commands w1) @ map command_of_line ls2) wc2
      = Inr w2" by simp
  from step_pass_replay [OF s1 this] obtain rest' where
    "commands w2 = commands w1 @ rest'" "length rest' = length (map command_of_line ls2)"
    by auto
  with n have "\<exists>new. commands w2 = commands w1 @ new \<and> new \<noteq> []" by auto
  with cmdscript_parse_extends [OF p2] show ?thesis by simp
qed

theorem C2_second_parse_appends_witness:
  "cmdscript_parse ''SUB 1 t f'' initial_state
     = Inr (initial_state\<lparr>commands := [\<lparr>cmd = ''SUB'', args = [S ''1'', S ''t'', S ''f'']\<rparr>],
              subscriptions := [\<lparr>sub_qos = 1, sub_topic = S ''t'', logfile = S ''f''\<rparr>]\<rparr>)
   \<and> parse_twice ''SUB 1 t f'' initial_state
     = Inr (initial_state\<lparr>commands := [\<lparr>cmd = ''SUB'', args = [S ''1'', S ''t'', S ''f'']\<rparr>,
                                         \<lparr>cmd = ''SUB'', args = [S ''1'', S ''t'', S ''f'']\<rparr>],
              subscriptions := [\<lparr>sub_qos = 1, sub_topic = S ''t'', logfile = S ''f''\<rparr>,
                                \<lparr>sub_qos = 1, sub_topic = S ''t'', logfile = S ''f''\<rparr>,
                                \<lparr>sub_qos = 1, sub_topic = S ''t'', logfile = S ''f''\<rparr>]\<rparr>)
   \<and> (\<exists>new. [\<lparr>cmd = ''SUB'', args = [S ''1'', S ''t'', S ''f'']\<rparr>,
              \<lparr>cmd = ''SUB'', args = [S ''1'', S ''t'', S ''f'']\<rparr>]
             = [\<lparr>cmd = ''SUB'', args = [S ''1'', S ''t'', S ''f'']\<rparr>] @ new \<and> new \<noteq> [])"
proof -
  let ?c = "\<lparr>cmd = ''SUB'', args = [S ''1'', S ''t'', S ''f'']\<rparr>"
  let ?s = "\<lparr>sub_qos = 1, sub_topic = S ''t'', logfile = S ''f''\<rparr>"
  let ?wa = "initial_state\<lparr>commands := [?c], subscriptions := [?s]\<rparr>"
  let ?wb = "initial_state\<lparr>commands := [?c, ?c], subscriptions := [?s, ?s, ?s]\<rparr>"
  have p1: "cmdscript_parse ''SUB 1 t f'' initial_state = Inr ?wa" by code_simp
  have p2: "parse_twice ''SUB 1 t f'' initial_state = Inr ?wb" by code_simp
  from C2_second_parse_appends [OF p1 p2]
  have "\<exists>new. commands ?wb = commands ?wa @ new \<and> new \<noteq> []" by blast
  then have "\<exists>new. [?c, ?c] = [?c] @ new \<and> new \<noteq> []" by simp
  with p1 p2 show ?thesis by blast
qed

end
